theory Spec2Isabelle
  imports Complex_Main "HOL-Library.Word" "HOL-Library.Multiset" "HOL-Library.Log_Nat"
begin

section \<open>Data model of Project.cpp\<close>

text \<open>
  The C++ type \<open>int\<close> is a 32-bit two's complement integer: \<open>+\<close>, \<open>-\<close> and \<open>*\<close> on
  \<open>cint\<close> wrap around, \<open>sint\<close> reads the signed value, and the comparisons of the source
  are the signed ones (\<open>\<le>s\<close>, \<open><s\<close>). The C++ standard leaves the overflow of an \<open>int\<close>
  undefined; the model takes the wrap-around that the compiled program shows. Where a
  statement below is about signed values, it says under which bounds no overflow occurs.
\<close>

type_synonym cint = "32 word"

text \<open>\<open>struct Job\<close>. The field \<open>id\<close> is written \<open>id_job\<close>.\<close>

record Job =
  id_job :: cint
  arrivalTime :: cint
  coresRequired :: cint
  memoryRequired :: cint
  execTime :: cint
  completed :: bool

text \<open>The constructor \<open>Job(id, arrival, cores, memory, exec)\<close>: \<open>completed(false)\<close>.\<close>

definition mkJob :: "cint \<Rightarrow> cint \<Rightarrow> cint \<Rightarrow> cint \<Rightarrow> cint \<Rightarrow> Job" where
  "mkJob i arrival cores memory exec =
     \<lparr>id_job = i, arrivalTime = arrival, coresRequired = cores,
      memoryRequired = memory, execTime = exec, completed = False\<rparr>"

text \<open>\<open>struct WorkerNode\<close>. The field \<open>id\<close> is written \<open>id_node\<close>.\<close>

record WorkerNode =
  id_node :: cint
  totalCores :: cint
  totalMemory :: cint
  availableCores :: cint
  availableMemory :: cint

text \<open>
  \<open>WorkerNode{i}\<close>: the default member initialisers give 24 cores and 64 GB, all of
  them available.
\<close>

definition mkWorkerNode :: "cint \<Rightarrow> WorkerNode" where
  "mkWorkerNode i =
     \<lparr>id_node = i, totalCores = 24, totalMemory = 64,
      availableCores = 24, availableMemory = 64\<rparr>"

text \<open>
  \<open>bool WorkerNode::allocateJob(const Job &job)\<close>: the result and the node after the
  call. The two assignments are kept in the order of the source.
\<close>

definition allocateJob :: "WorkerNode \<Rightarrow> Job \<Rightarrow> bool \<times> WorkerNode" where
  "allocateJob node job =
     (if coresRequired job \<le>s availableCores node \<and> memoryRequired job \<le>s availableMemory node
      then
        let node1 = node\<lparr>availableCores := availableCores node - coresRequired job\<rparr>;
            node2 = node1\<lparr>availableMemory := availableMemory node1 - memoryRequired job\<rparr>
        in (True, node2)
      else (False, node))"

text \<open>\<open>void WorkerNode::freeResources(const Job &job)\<close>.\<close>

definition freeResources :: "WorkerNode \<Rightarrow> Job \<Rightarrow> WorkerNode" where
  "freeResources node job =
     (let node1 = node\<lparr>availableCores := availableCores node + coresRequired job\<rparr>;
          node2 = node1\<lparr>availableMemory := availableMemory node1 + memoryRequired job\<rparr>
      in node2)"

section \<open>Utilization\<close>

text \<open>
  The C++ type \<open>double\<close> is the IEEE 754 binary64 format, and every operation is
  evaluated in that format and rounded to nearest, ties to even. A value is a rational
  number, an infinity or a NaN. The two signed zeros are one value here: no result of
  the two functions below depends on the sign of a zero, and a zero divisor comes from
  the conversion of an \<open>int\<close>, which gives \<open>+0\<close>.
\<close>

datatype double = Finite rat | PlusInfinity | MinusInfinity | NaN

text \<open>\<open>ilog2 x\<close> is the exponent of \<open>x > 0\<close>: \<open>2 powi ilog2 x \<le> x < 2 powi (ilog2 x + 1)\<close>.\<close>

definition ilog2 :: "rat \<Rightarrow> int" where
  "ilog2 x =
     (case quotient_of x of
        (p, q) \<Rightarrow> let d = bitlen p - bitlen q in if 2 powi d \<le> x then d else d - 1)"

text \<open>The integer nearest to \<open>m\<close>, the even one of two at the same distance.\<close>

definition round_half_even :: "rat \<Rightarrow> int" where
  "round_half_even m =
     (let f = \<lfloor>m\<rfloor>; r = m - of_int f
      in if r < 1 / 2 then f else if 1 / 2 < r then f + 1 else if even f then f else f + 1)"

text \<open>
  Rounding of a rational number to binary64: 53 significant bits, exponents from
  \<open>-1022\<close> (below it the spacing of the subnormal numbers, \<open>2 powi (- 1074)\<close>), and an
  infinity when the rounded magnitude reaches \<open>2 powi 1024\<close>.
\<close>

definition round_double :: "rat \<Rightarrow> double" where
  "round_double x =
     (if x = 0 then Finite 0
      else
        let e = max (ilog2 \<bar>x\<bar>) (- 1022);
            quantum = 2 powi (e - 52);
            y = of_int (round_half_even (\<bar>x\<bar> / quantum)) * quantum
        in if 2 powi 1024 \<le> y then (if 0 < x then PlusInfinity else MinusInfinity)
           else Finite (sgn x * y))"

text \<open>The conversion of an \<open>int\<close>, which is exact, and the three operations used.\<close>

definition double_of_int :: "cint \<Rightarrow> double" where
  "double_of_int w = Finite (of_int (sint w))"

fun double_div :: "double \<Rightarrow> double \<Rightarrow> double" where
  "double_div NaN b = NaN"
| "double_div a NaN = NaN"
| "double_div (Finite a) (Finite b) =
     (if b = 0 then (if a = 0 then NaN else if 0 < a then PlusInfinity else MinusInfinity)
      else round_double (a / b))"
| "double_div (Finite a) b = Finite 0"
| "double_div a (Finite b) =
     (if (a = PlusInfinity) = (0 \<le> b) then PlusInfinity else MinusInfinity)"
| "double_div a b = NaN"

fun double_sub :: "double \<Rightarrow> double \<Rightarrow> double" where
  "double_sub NaN b = NaN"
| "double_sub a NaN = NaN"
| "double_sub (Finite a) (Finite b) = round_double (a - b)"
| "double_sub (Finite a) PlusInfinity = MinusInfinity"
| "double_sub (Finite a) MinusInfinity = PlusInfinity"
| "double_sub a (Finite b) = a"
| "double_sub a b = (if a = b then NaN else a)"

fun double_mul :: "double \<Rightarrow> double \<Rightarrow> double" where
  "double_mul NaN b = NaN"
| "double_mul a NaN = NaN"
| "double_mul (Finite a) (Finite b) = round_double (a * b)"
| "double_mul (Finite a) b =
     (if a = 0 then NaN else if (0 < a) = (b = PlusInfinity) then PlusInfinity else MinusInfinity)"
| "double_mul a (Finite b) =
     (if b = 0 then NaN else if (0 < b) = (a = PlusInfinity) then PlusInfinity else MinusInfinity)"
| "double_mul a b = (if a = b then PlusInfinity else MinusInfinity)"

text \<open>
  \<open>double WorkerNode::getCpuUtilization() const\<close> and \<open>getMemoryUtilization\<close>:
  \<open>100.0 * (1.0 - (double)available / total)\<close>.
\<close>

definition getCpuUtilization :: "WorkerNode \<Rightarrow> double" where
  "getCpuUtilization node =
     double_mul (Finite 100)
       (double_sub (Finite 1)
          (double_div (double_of_int (availableCores node)) (double_of_int (totalCores node))))"

definition getMemoryUtilization :: "WorkerNode \<Rightarrow> double" where
  "getMemoryUtilization node =
     double_mul (Finite 100)
       (double_sub (Finite 1)
          (double_div (double_of_int (availableMemory node)) (double_of_int (totalMemory node))))"

section \<open>Policy queues\<close>

text \<open>
  The two comparators. \<open>a > b\<close> on \<open>int\<close> is the signed \<open>b <s a\<close>; the products are
  computed in \<open>int\<close>, left to right, and wrap around.
\<close>

definition SmallestJobFirst :: "Job \<Rightarrow> Job \<Rightarrow> bool" where
  "SmallestJobFirst j1 j2 \<longleftrightarrow>
     (execTime j2 * coresRequired j2 * memoryRequired j2)
       <s (execTime j1 * coresRequired j1 * memoryRequired j1)"

definition ShortestDurationFirst :: "Job \<Rightarrow> Job \<Rightarrow> bool" where
  "ShortestDurationFirst j1 j2 \<longleftrightarrow> execTime j2 <s execTime j1"

text \<open>
  \<open>std::priority_queue<Job, std::vector<Job>, Compare>\<close> belongs to the C++ standard
  library, not to Project.cpp. It is modelled by its contract: \<open>top()\<close> is an element
  that \<open>Compare\<close> puts below no other element of the queue, and \<open>pop()\<close> removes it.
  The queue is the list of its elements in the order in which they will be popped:
  \<open>pq_push\<close> puts the new element in front of the first one that \<open>Compare\<close> puts below
  it, \<open>top()\<close> is the head and \<open>pop()\<close> drops the head. Among elements that \<open>Compare\<close>
  does not separate, the standard leaves the order open; the model pops them in the
  order of their arrival.
\<close>

fun pq_push :: "('a \<Rightarrow> 'a \<Rightarrow> bool) \<Rightarrow> 'a \<Rightarrow> 'a list \<Rightarrow> 'a list" where
  "pq_push cmp x [] = [x]"
| "pq_push cmp x (y # ys) = (if cmp y x then x # y # ys else y # pq_push cmp x ys)"

text \<open>Popping until the queue is empty: \<open>top()\<close>, then \<open>pop()\<close>, while \<open>!empty()\<close>.\<close>

fun pq_pop_all :: "'a list \<Rightarrow> 'a list" where
  "pq_pop_all [] = []"
| "pq_pop_all (job # rest) = job # pq_pop_all rest"

section \<open>Scheduler\<close>

text \<open>A line written to \<open>std::cout\<close> by \<open>allocateJobToNode\<close>: the job's id, the node's id.\<close>

datatype event = Allocated cint cint | NotAllocated cint

text \<open>
  \<open>class Scheduler\<close>: its five members, and the lines written to \<open>std::cout\<close> so far.
  \<open>jobQueueFCFS\<close> is a \<open>std::queue\<close>: the front is the head of the list.
\<close>

record Scheduler =
  nodes :: "WorkerNode list"
  jobQueueFCFS :: "Job list"
  jobQueueSmallest :: "Job list"
  jobQueueShortest :: "Job list"
  pendingJobs :: "Job list"
  console :: "event list"

text \<open>\<open>Scheduler(int numNodes)\<close>: nodes \<open>0 .. numNodes - 1\<close>, none when \<open>numNodes \<le> 0\<close>.\<close>

definition mkScheduler :: "cint \<Rightarrow> Scheduler" where
  "mkScheduler numNodes =
     \<lparr>nodes = map (\<lambda>i. mkWorkerNode (of_nat i)) [0 ..< nat (sint numNodes)],
      jobQueueFCFS = [], jobQueueSmallest = [], jobQueueShortest = [],
      pendingJobs = [], console = []\<rparr>"

definition addJobToQueueFCFS :: "Job \<Rightarrow> Scheduler \<Rightarrow> Scheduler" where
  "addJobToQueueFCFS job s = s\<lparr>jobQueueFCFS := jobQueueFCFS s @ [job]\<rparr>"

definition addJobToQueueSmallest :: "Job \<Rightarrow> Scheduler \<Rightarrow> Scheduler" where
  "addJobToQueueSmallest job s =
     s\<lparr>jobQueueSmallest := pq_push SmallestJobFirst job (jobQueueSmallest s)\<rparr>"

definition addJobToQueueShortest :: "Job \<Rightarrow> Scheduler \<Rightarrow> Scheduler" where
  "addJobToQueueShortest job s =
     s\<lparr>jobQueueShortest := pq_push ShortestDurationFirst job (jobQueueShortest s)\<rparr>"

text \<open>
  The loop \<open>for (auto &node : nodes)\<close> of \<open>allocateJobToNode\<close>: the id of the node that
  took the job (\<open>None\<close> when the loop ends without one) and the nodes after the loop.
\<close>

fun allocateJobToNode_loop :: "Job \<Rightarrow> WorkerNode list \<Rightarrow> cint option \<times> WorkerNode list" where
  "allocateJobToNode_loop job [] = (None, [])"
| "allocateJobToNode_loop job (node # rest) =
     (case allocateJob node job of
        (True, node') \<Rightarrow> (Some (id_node node'), node' # rest)
      | (False, node') \<Rightarrow>
          (case allocateJobToNode_loop job rest of (r, rest') \<Rightarrow> (r, node' # rest')))"

text \<open>
  \<open>bool Scheduler::allocateJobToNode(Job &job)\<close>: the result, the job behind the
  reference after the call, and the scheduler after the call.
\<close>

definition allocateJobToNode :: "Job \<Rightarrow> Scheduler \<Rightarrow> bool \<times> Job \<times> Scheduler" where
  "allocateJobToNode job s =
     (case allocateJobToNode_loop job (nodes s) of
        (Some n, ns) \<Rightarrow>
          (True, job, s\<lparr>nodes := ns, console := console s @ [Allocated (id_job job) n]\<rparr>)
      | (None, ns) \<Rightarrow>
          (False, job, s\<lparr>nodes := ns, console := console s @ [NotAllocated (id_job job)]\<rparr>))"

text \<open>
  The three drains. Each is the \<open>while\<close> loop of the source: the local copy \<open>job\<close> is
  taken from the queue, the queue is popped, and the copy is pushed to \<open>pendingJobs\<close>
  when \<open>allocateJobToNode\<close> returns false.
\<close>

function scheduleJobsFCFS :: "Scheduler \<Rightarrow> Scheduler" where
  "scheduleJobsFCFS s =
     (case jobQueueFCFS s of
        [] \<Rightarrow> s
      | job # rest \<Rightarrow>
          (case allocateJobToNode job (s\<lparr>jobQueueFCFS := rest\<rparr>) of
             (ok, job', s') \<Rightarrow>
               scheduleJobsFCFS
                 (if \<not> ok then s'\<lparr>pendingJobs := pendingJobs s' @ [job']\<rparr> else s')))"
  by pat_completeness auto
termination
  by (relation "measure (\<lambda>s. length (jobQueueFCFS s))")
     (auto simp: allocateJobToNode_def split: prod.splits option.splits)

function scheduleJobsSmallest :: "Scheduler \<Rightarrow> Scheduler" where
  "scheduleJobsSmallest s =
     (case jobQueueSmallest s of
        [] \<Rightarrow> s
      | job # rest \<Rightarrow>
          (case allocateJobToNode job (s\<lparr>jobQueueSmallest := rest\<rparr>) of
             (ok, job', s') \<Rightarrow>
               scheduleJobsSmallest
                 (if \<not> ok then s'\<lparr>pendingJobs := pendingJobs s' @ [job']\<rparr> else s')))"
  by pat_completeness auto
termination
  by (relation "measure (\<lambda>s. length (jobQueueSmallest s))")
     (auto simp: allocateJobToNode_def split: prod.splits option.splits)

function scheduleJobsShortest :: "Scheduler \<Rightarrow> Scheduler" where
  "scheduleJobsShortest s =
     (case jobQueueShortest s of
        [] \<Rightarrow> s
      | job # rest \<Rightarrow>
          (case allocateJobToNode job (s\<lparr>jobQueueShortest := rest\<rparr>) of
             (ok, job', s') \<Rightarrow>
               scheduleJobsShortest
                 (if \<not> ok then s'\<lparr>pendingJobs := pendingJobs s' @ [job']\<rparr> else s')))"
  by pat_completeness auto
termination
  by (relation "measure (\<lambda>s. length (jobQueueShortest s))")
     (auto simp: allocateJobToNode_def split: prod.splits option.splits)

text \<open>\<open>generateSampleJobs\<close>: the five jobs of the source, in its order.\<close>

definition generateSampleJobs :: "Scheduler \<Rightarrow> Scheduler" where
  "generateSampleJobs s0 =
     (let s1 = addJobToQueueFCFS (mkJob 1 1 10 32 5) s0;
          s2 = addJobToQueueSmallest (mkJob 2 2 5 16 3) s1;
          s3 = addJobToQueueShortest (mkJob 3 3 20 48 2) s2;
          s4 = addJobToQueueFCFS (mkJob 4 4 8 20 6) s3;
          s5 = addJobToQueueSmallest (mkJob 5 5 12 40 1) s4
      in s5)"

declare scheduleJobsFCFS.simps [simp del]
declare scheduleJobsSmallest.simps [simp del]
declare scheduleJobsShortest.simps [simp del]

section \<open>Notions used in the statements\<close>

text \<open>The guard of \<open>allocateJob\<close>: the node's available capacity admits the job.\<close>

definition admits :: "WorkerNode \<Rightarrow> Job \<Rightarrow> bool" where
  "admits node job \<longleftrightarrow>
     coresRequired job \<le>s availableCores node \<and> memoryRequired job \<le>s availableMemory node"

text \<open>The bounds on the two counters of a node.\<close>

definition node_inv :: "WorkerNode \<Rightarrow> bool" where
  "node_inv node \<longleftrightarrow>
     0 \<le>s availableCores node \<and> availableCores node \<le>s totalCores node \<and>
     0 \<le>s availableMemory node \<and> availableMemory node \<le>s totalMemory node"

text \<open>A job that asks for no negative amount.\<close>

definition job_nonneg :: "Job \<Rightarrow> bool" where
  "job_nonneg job \<longleftrightarrow> 0 \<le>s coresRequired job \<and> 0 \<le>s memoryRequired job"

text \<open>Sequences of calls on one node.\<close>

datatype node_op = AllocateJob Job | FreeResources Job

fun apply_op :: "WorkerNode \<Rightarrow> node_op \<Rightarrow> WorkerNode" where
  "apply_op node (AllocateJob job) = snd (allocateJob node job)"
| "apply_op node (FreeResources job) = freeResources node job"

fun run_ops :: "WorkerNode \<Rightarrow> node_op list \<Rightarrow> WorkerNode" where
  "run_ops node [] = node"
| "run_ops node (op # ops) = run_ops (apply_op node op) ops"

text \<open>
  A sequence of calls is disciplined when every job asks for no negative amount and
  every \<open>freeResources\<close> frees a job that the node holds: one that an earlier
  \<open>allocateJob\<close> of the sequence placed on it and that has not been freed since.
  \<open>held\<close> lists the jobs that the node holds before the sequence.
\<close>

fun disciplined :: "Job list \<Rightarrow> WorkerNode \<Rightarrow> node_op list \<Rightarrow> bool" where
  "disciplined held node [] = True"
| "disciplined held node (AllocateJob job # ops) =
     (job_nonneg job \<and>
      disciplined (if fst (allocateJob node job) then job # held else held)
        (snd (allocateJob node job)) ops)"
| "disciplined held node (FreeResources job # ops) =
     (job \<in> set held \<and> disciplined (remove1 job held) (freeResources node job) ops)"

definition held_cores :: "Job list \<Rightarrow> int" where
  "held_cores held = sum_list (map (\<lambda>job. sint (coresRequired job)) held)"

definition held_memory :: "Job list \<Rightarrow> int" where
  "held_memory held = sum_list (map (\<lambda>job. sint (memoryRequired job)) held)"

text \<open>The node's counters leave room for everything it holds.\<close>

definition accounted :: "Job list \<Rightarrow> WorkerNode \<Rightarrow> bool" where
  "accounted held node \<longleftrightarrow>
     node_inv node \<and> (\<forall>job \<in> set held. job_nonneg job) \<and>
     sint (availableCores node) + held_cores held \<le> sint (totalCores node) \<and>
     sint (availableMemory node) + held_memory held \<le> sint (totalMemory node)"

text \<open>
  One turn of a drain loop after the pop: the job is offered to the nodes and pushed
  to \<open>pendingJobs\<close> when no node took it. \<open>offer_all\<close> offers the jobs of a list in
  turn.
\<close>

definition offer :: "Job \<Rightarrow> Scheduler \<Rightarrow> Scheduler" where
  "offer job s =
     (case allocateJobToNode job s of
        (ok, job', s') \<Rightarrow> if \<not> ok then s'\<lparr>pendingJobs := pendingJobs s' @ [job']\<rparr> else s')"

fun offer_all :: "Job list \<Rightarrow> Scheduler \<Rightarrow> Scheduler" where
  "offer_all [] s = s"
| "offer_all (job # rest) s = offer_all rest (offer job s)"

text \<open>
  What a drain is to do with the jobs it pops, in the words of the specification: each
  job is placed on exactly one node, the first that admits it, or, when no node admits
  it, appended as it is to \<open>pendingJobs\<close>; one line is written for it; nothing else
  changes.
\<close>

inductive drain_spec :: "Job list \<Rightarrow> Scheduler \<Rightarrow> Scheduler \<Rightarrow> bool" where
  empty: "drain_spec [] s s"
| placed:
    "nodes s = pre @ node # post \<Longrightarrow> \<forall>m \<in> set pre. \<not> admits m job \<Longrightarrow> admits node job \<Longrightarrow>
     drain_spec rest
       (s\<lparr>nodes := pre @ snd (allocateJob node job) # post,
          console := console s @ [Allocated (id_job job) (id_node node)]\<rparr>) s' \<Longrightarrow>
     drain_spec (job # rest) s s'"
| deferred:
    "\<forall>m \<in> set (nodes s). \<not> admits m job \<Longrightarrow>
     drain_spec rest
       (s\<lparr>pendingJobs := pendingJobs s @ [job],
          console := console s @ [NotAllocated (id_job job)]\<rparr>) s' \<Longrightarrow>
     drain_spec (job # rest) s s'"

text \<open>
  A node whose counters do not exceed its totals; a job that asks for more than the
  total of every node, in cores or in memory.
\<close>

definition capped :: "WorkerNode \<Rightarrow> bool" where
  "capped node \<longleftrightarrow>
     availableCores node \<le>s totalCores node \<and> availableMemory node \<le>s totalMemory node"

definition infeasible :: "Job \<Rightarrow> WorkerNode list \<Rightarrow> bool" where
  "infeasible job ns \<longleftrightarrow>
     (\<forall>node \<in> set ns. totalCores node <s coresRequired job) \<or>
     (\<forall>node \<in> set ns. totalMemory node <s memoryRequired job)"

text \<open>Sequences of drains, in any order.\<close>

datatype policy = FCFS | Smallest | Shortest

fun run_drain :: "policy \<Rightarrow> Scheduler \<Rightarrow> Scheduler" where
  "run_drain FCFS s = scheduleJobsFCFS s"
| "run_drain Smallest s = scheduleJobsSmallest s"
| "run_drain Shortest s = scheduleJobsShortest s"

fun run_drains :: "policy list \<Rightarrow> Scheduler \<Rightarrow> Scheduler" where
  "run_drains [] s = s"
| "run_drains (p # ps) s = run_drains ps (run_drain p s)"

fun queue_of :: "policy \<Rightarrow> Scheduler \<Rightarrow> Job list" where
  "queue_of FCFS s = jobQueueFCFS s"
| "queue_of Smallest s = jobQueueSmallest s"
| "queue_of Shortest s = jobQueueShortest s"

text \<open>
  The nodes are capped and the queued jobs ask for no negative amount; the number of
  copies of a job in the scheduler; the jobs of the scheduler.
\<close>

definition sched_ok :: "Scheduler \<Rightarrow> bool" where
  "sched_ok s \<longleftrightarrow>
     (\<forall>node \<in> set (nodes s). capped node) \<and>
     (\<forall>job \<in> set (jobQueueFCFS s @ jobQueueSmallest s @ jobQueueShortest s). job_nonneg job)"

definition copies :: "Job \<Rightarrow> Scheduler \<Rightarrow> nat" where
  "copies job s =
     count_list (jobQueueFCFS s) job + count_list (jobQueueSmallest s) job +
     count_list (jobQueueShortest s) job + count_list (pendingJobs s) job"

definition all_jobs :: "Scheduler \<Rightarrow> Job list" where
  "all_jobs s = jobQueueFCFS s @ jobQueueSmallest s @ jobQueueShortest s @ pendingJobs s"

text \<open>
  The key of \<open>SmallestJobFirst\<close> as the comparator computes it, in \<open>int\<close>; the product
  of the three signed values in the integers; the integers that an \<open>int\<close> can hold.
\<close>

definition key32 :: "Job \<Rightarrow> cint" where
  "key32 job = execTime job * coresRequired job * memoryRequired job"

definition exact_product :: "Job \<Rightarrow> int" where
  "exact_product job = sint (execTime job) * sint (coresRequired job) * sint (memoryRequired job)"

definition fits_int :: "int \<Rightarrow> bool" where
  "fits_int k \<longleftrightarrow> - (2 ^ 31) \<le> k \<and> k < 2 ^ 31"

text \<open>The job that a line of the console is about.\<close>

definition event_job :: "event \<Rightarrow> cint" where
  "event_job e = (case e of Allocated j n \<Rightarrow> j | NotAllocated j \<Rightarrow> j)"

section \<open>WorkerNode: allocation\<close>

lemma sint_sub_nonneg:
  fixes a b :: cint
  assumes "0 \<le>s b" and "b \<le>s a"
  shows "sint (a - b) = sint a - sint b"
proof -
  have r: "- (2 ^ 31) \<le> sint a" "sint a < 2 ^ 31" "sint b < 2 ^ 31"
    using sint_ge [of a] sint_lt [of a] sint_lt [of b] by simp_all
  have "0 \<le> sint b" "sint b \<le> sint a"
    using assms by (simp_all add: word_sle_eq)
  then show ?thesis
    using r by (simp add: sint_word_ariths signed_take_bit_int_eq_self)
qed


text \<open>
  C1. \<open>allocateJob\<close> returns true exactly when both comparisons of the guard hold before
  the call. When it returns true, both counters are decremented (\<open>-\<close> of the machine
  integers; for a non-negative requirement this is the subtraction of the signed values)
  and nothing else changes; when it returns false the node is unchanged. Hence never one
  counter is decremented without the other.
\<close>

theorem allocateJob_joint:
  "(fst (allocateJob node job) \<longleftrightarrow>
      coresRequired job \<le>s availableCores node \<and> memoryRequired job \<le>s availableMemory node)
   \<and> (fst (allocateJob node job) \<longrightarrow>
        availableCores (snd (allocateJob node job)) = availableCores node - coresRequired job
      \<and> availableMemory (snd (allocateJob node job)) = availableMemory node - memoryRequired job
      \<and> (0 \<le>s coresRequired job \<longrightarrow>
           sint (availableCores (snd (allocateJob node job)))
             = sint (availableCores node) - sint (coresRequired job))
      \<and> (0 \<le>s memoryRequired job \<longrightarrow>
           sint (availableMemory (snd (allocateJob node job)))
             = sint (availableMemory node) - sint (memoryRequired job))
      \<and> id_node (snd (allocateJob node job)) = id_node node
      \<and> totalCores (snd (allocateJob node job)) = totalCores node
      \<and> totalMemory (snd (allocateJob node job)) = totalMemory node)
   \<and> (\<not> fst (allocateJob node job) \<longrightarrow> snd (allocateJob node job) = node)"
  by (simp add: allocateJob_def Let_def sint_sub_nonneg)

theorem allocateJob_joint_witness:
  "fst (allocateJob (mkWorkerNode 0) (mkJob 1 1 10 32 5))
   \<and> availableCores (snd (allocateJob (mkWorkerNode 0) (mkJob 1 1 10 32 5))) = 14
   \<and> availableMemory (snd (allocateJob (mkWorkerNode 0) (mkJob 1 1 10 32 5))) = 32
   \<and> sint (availableCores (snd (allocateJob (mkWorkerNode 0) (mkJob 1 1 10 32 5)))) = 14
   \<and> \<not> fst (allocateJob (mkWorkerNode 0) (mkJob 6 6 30 8 1))
   \<and> snd (allocateJob (mkWorkerNode 0) (mkJob 6 6 30 8 1)) = mkWorkerNode 0"
  using allocateJob_joint [of "mkWorkerNode 0" "mkJob 1 1 10 32 5"]
    allocateJob_joint [of "mkWorkerNode 0" "mkJob 6 6 30 8 1"]
  by (simp add: mkWorkerNode_def mkJob_def)

section \<open>First fit\<close>

lemma allocateJob_fst: "fst (allocateJob node job) = admits node job"
  by (simp add: allocateJob_def admits_def Let_def)

lemma allocateJob_refused: "\<not> admits node job \<Longrightarrow> allocateJob node job = (False, node)"
  by (simp add: allocateJob_def admits_def)

lemma allocateJob_id_node: "id_node (snd (allocateJob node job)) = id_node node"
  by (simp add: allocateJob_def Let_def)

lemma loop_first_fit:
  "\<forall>m \<in> set pre. \<not> admits m job \<Longrightarrow> admits node job \<Longrightarrow>
   allocateJobToNode_loop job (pre @ node # post)
     = (Some (id_node node), pre @ snd (allocateJob node job) # post)"
proof (induction pre)
  case Nil
  then show ?case
    using allocateJob_fst [of node job] allocateJob_id_node [of node job]
    by (cases "allocateJob node job") auto
next
  case (Cons m pre)
  then show ?case by (simp add: allocateJob_refused)
qed

lemma loop_no_fit:
  "\<forall>m \<in> set ns. \<not> admits m job \<Longrightarrow> allocateJobToNode_loop job ns = (None, ns)"
  by (induction ns) (simp_all add: allocateJob_refused)

lemma nodes_split:
  "(\<forall>m \<in> set ns. \<not> admits m job) \<or>
   (\<exists>pre node post. ns = pre @ node # post \<and> (\<forall>m \<in> set pre. \<not> admits m job) \<and> admits node job)"
  using split_list_first_prop [of ns "\<lambda>m. admits m job"] by blast


text \<open>
  C4. \<open>allocateJobToNode\<close> scans the nodes in the order of the vector. When the nodes
  before \<open>node\<close> do not admit the job and \<open>node\<close> does, the job is placed on \<open>node\<close>:
  the call returns true, \<open>node\<close> is replaced by its state after \<open>allocateJob\<close>, one line
  naming \<open>node\<close> is written, and the nodes before and after it are unchanged. In
  particular, when the first node admits the job, the job is placed there and the rest
  of the vector is unchanged.
\<close>

theorem allocateJobToNode_first_fit:
  assumes "nodes s = pre @ node # post"
    and "\<forall>m \<in> set pre. \<not> admits m job"
    and "admits node job"
  shows "allocateJobToNode job s =
           (True, job,
            s\<lparr>nodes := pre @ snd (allocateJob node job) # post,
              console := console s @ [Allocated (id_job job) (id_node node)]\<rparr>)
         \<and> (pre = [] \<longrightarrow>
              nodes (snd (snd (allocateJobToNode job s))) = snd (allocateJob node job) # post)"
proof -
  have placed: "allocateJobToNode job s =
           (True, job,
            s\<lparr>nodes := pre @ snd (allocateJob node job) # post,
              console := console s @ [Allocated (id_job job) (id_node node)]\<rparr>)"
    using assms loop_first_fit [of pre job node post]
    by (simp add: allocateJobToNode_def)
  show ?thesis unfolding placed by simp
qed

theorem allocateJobToNode_first_fit_witness:
  "allocateJobToNode (mkJob 7 0 5 5 1)
     \<lparr>nodes = [\<lparr>id_node = 0, totalCores = 10, totalMemory = 10,
                 availableCores = 10, availableMemory = 10\<rparr>,
               \<lparr>id_node = 1, totalCores = 100, totalMemory = 100,
                 availableCores = 100, availableMemory = 100\<rparr>],
      jobQueueFCFS = [], jobQueueSmallest = [], jobQueueShortest = [],
      pendingJobs = [], console = []\<rparr>
   = (True, mkJob 7 0 5 5 1,
      \<lparr>nodes = [\<lparr>id_node = 0, totalCores = 10, totalMemory = 10,
                  availableCores = 5, availableMemory = 5\<rparr>,
                \<lparr>id_node = 1, totalCores = 100, totalMemory = 100,
                  availableCores = 100, availableMemory = 100\<rparr>],
       jobQueueFCFS = [], jobQueueSmallest = [], jobQueueShortest = [],
       pendingJobs = [], console = [Allocated 7 0]\<rparr>)
   \<and> allocateJobToNode (mkJob 8 0 50 50 1)
     \<lparr>nodes = [\<lparr>id_node = 0, totalCores = 10, totalMemory = 10,
                 availableCores = 10, availableMemory = 10\<rparr>,
               \<lparr>id_node = 1, totalCores = 100, totalMemory = 100,
                 availableCores = 100, availableMemory = 100\<rparr>],
      jobQueueFCFS = [], jobQueueSmallest = [], jobQueueShortest = [],
      pendingJobs = [], console = []\<rparr>
   = (True, mkJob 8 0 50 50 1,
      \<lparr>nodes = [\<lparr>id_node = 0, totalCores = 10, totalMemory = 10,
                  availableCores = 10, availableMemory = 10\<rparr>,
                \<lparr>id_node = 1, totalCores = 100, totalMemory = 100,
                  availableCores = 50, availableMemory = 50\<rparr>],
       jobQueueFCFS = [], jobQueueSmallest = [], jobQueueShortest = [],
       pendingJobs = [], console = [Allocated 8 1]\<rparr>)"
  using allocateJobToNode_first_fit [of
      "\<lparr>nodes = [\<lparr>id_node = 0, totalCores = 10, totalMemory = 10,
                 availableCores = 10, availableMemory = 10\<rparr>,
               \<lparr>id_node = 1, totalCores = 100, totalMemory = 100,
                 availableCores = 100, availableMemory = 100\<rparr>],
      jobQueueFCFS = [], jobQueueSmallest = [], jobQueueShortest = [],
      pendingJobs = [], console = []\<rparr>"
      "[]" "\<lparr>id_node = 0, totalCores = 10, totalMemory = 10,
                 availableCores = 10, availableMemory = 10\<rparr>"
      "[\<lparr>id_node = 1, totalCores = 100, totalMemory = 100,
                 availableCores = 100, availableMemory = 100\<rparr>]" "mkJob 7 0 5 5 1"]
    allocateJobToNode_first_fit [of
      "\<lparr>nodes = [\<lparr>id_node = 0, totalCores = 10, totalMemory = 10,
                 availableCores = 10, availableMemory = 10\<rparr>,
               \<lparr>id_node = 1, totalCores = 100, totalMemory = 100,
                 availableCores = 100, availableMemory = 100\<rparr>],
      jobQueueFCFS = [], jobQueueSmallest = [], jobQueueShortest = [],
      pendingJobs = [], console = []\<rparr>"
      "[\<lparr>id_node = 0, totalCores = 10, totalMemory = 10,
                 availableCores = 10, availableMemory = 10\<rparr>]"
      "\<lparr>id_node = 1, totalCores = 100, totalMemory = 100,
                 availableCores = 100, availableMemory = 100\<rparr>"
      "[]" "mkJob 8 0 50 50 1"]
  by (simp add: admits_def mkJob_def allocateJob_def Let_def)

section \<open>The bounds on a node's counters\<close>

lemma sint_add_bounded:
  fixes a b c :: cint
  assumes "0 \<le> sint a" and "0 \<le> sint b" and "sint a + sint b \<le> sint c"
  shows "sint (a + b) = sint a + sint b"
proof -
  have "sint c < 2 ^ 31" using sint_lt [of c] by simp
  then show ?thesis
    using assms by (simp add: sint_word_ariths signed_take_bit_int_eq_self)
qed

lemma held_remove1:
  "job \<in> set held \<Longrightarrow>
   held_cores held = sint (coresRequired job) + held_cores (remove1 job held) \<and>
   held_memory held = sint (memoryRequired job) + held_memory (remove1 job held)"
  by (simp add: held_cores_def held_memory_def sum_list_map_remove1)

lemma held_nonneg:
  "\<forall>job \<in> set held. job_nonneg job \<Longrightarrow> 0 \<le> held_cores held \<and> 0 \<le> held_memory held"
  by (induction held) (auto simp: held_cores_def held_memory_def job_nonneg_def word_sle_eq)

lemma accounted_allocate:
  assumes "accounted held node" and "job_nonneg job"
  shows "accounted (if fst (allocateJob node job) then job # held else held)
           (snd (allocateJob node job))"
proof (cases "admits node job")
  case False
  then show ?thesis using assms by (simp add: allocateJob_refused)
next
  case True
  then have c: "sint (availableCores node - coresRequired job)
                  = sint (availableCores node) - sint (coresRequired job)"
    and m: "sint (availableMemory node - memoryRequired job)
                  = sint (availableMemory node) - sint (memoryRequired job)"
    using assms(2) by (simp_all add: admits_def job_nonneg_def sint_sub_nonneg)
  have "fst (allocateJob node job)" using True by (simp add: allocateJob_fst)
  then show ?thesis
    using assms True c m
    by (simp add: allocateJob_def Let_def accounted_def node_inv_def admits_def job_nonneg_def
        held_cores_def held_memory_def word_sle_eq)
qed

lemma accounted_free:
  assumes "accounted held node" and "job \<in> set held"
  shows "accounted (remove1 job held) (freeResources node job)"
proof -
  have nn: "job_nonneg job" using assms by (simp add: accounted_def)
  have rest: "\<forall>j \<in> set (remove1 job held). job_nonneg j"
    using assms(1) notin_set_remove1 by (fastforce simp: accounted_def)
  note h = held_remove1 [OF assms(2)] held_nonneg [OF rest]
  have c: "sint (availableCores node + coresRequired job)
             = sint (availableCores node) + sint (coresRequired job)"
    using assms(1) nn h
    by (intro sint_add_bounded [where c = "totalCores node"])
       (simp_all add: accounted_def node_inv_def job_nonneg_def word_sle_eq)
  have m: "sint (availableMemory node + memoryRequired job)
             = sint (availableMemory node) + sint (memoryRequired job)"
    using assms(1) nn h
    by (intro sint_add_bounded [where c = "totalMemory node"])
       (simp_all add: accounted_def node_inv_def job_nonneg_def word_sle_eq)
  show ?thesis
    using assms(1) nn h rest c m
    by (simp add: freeResources_def Let_def accounted_def node_inv_def job_nonneg_def word_sle_eq)
qed

lemma accounted_run:
  "accounted held node \<Longrightarrow> disciplined held node ops \<Longrightarrow> node_inv (run_ops node (take k ops))"
proof (induction ops arbitrary: held node k)
  case Nil
  then show ?case by (simp add: accounted_def)
next
  case (Cons op ops)
  show ?case
  proof (cases k)
    case 0
    then show ?thesis using Cons.prems by (simp add: accounted_def)
  next
    case (Suc k')
    show ?thesis
    proof (cases op)
      case (AllocateJob job)
      then show ?thesis
        using Cons.prems Suc Cons.IH [OF accounted_allocate, of held node job k']
        by simp
    next
      case (FreeResources job)
      then show ?thesis
        using Cons.prems Suc Cons.IH [OF accounted_free, of held node job k']
        by simp
    qed
  qed
qed


text \<open>
  C2, as the code has it. \<open>freeResources\<close> adds without a check, and \<open>allocateJob\<close> adds
  when a requirement is negative, so the bounds do not survive every sequence of calls.
  They hold at every point of a disciplined sequence that starts from a node within its
  bounds.
\<close>

theorem node_inv_disciplined:
  assumes "node_inv node" and "disciplined [] node ops"
  shows "node_inv (run_ops node (take k ops))"
proof -
  have "accounted [] node"
    using assms(1)
    by (simp add: accounted_def held_cores_def held_memory_def node_inv_def word_sle_eq)
  then show ?thesis using assms(2) by (rule accounted_run)
qed

theorem node_inv_disciplined_witness:
  "node_inv (mkWorkerNode 0)
   \<and> disciplined [] (mkWorkerNode 0)
        [AllocateJob (mkJob 1 1 10 32 5), AllocateJob (mkJob 4 4 8 20 6),
         FreeResources (mkJob 1 1 10 32 5)]
   \<and> node_inv (run_ops (mkWorkerNode 0)
        (take 3 [AllocateJob (mkJob 1 1 10 32 5), AllocateJob (mkJob 4 4 8 20 6),
                 FreeResources (mkJob 1 1 10 32 5)]))
   \<and> availableCores (run_ops (mkWorkerNode 0)
        [AllocateJob (mkJob 1 1 10 32 5), AllocateJob (mkJob 4 4 8 20 6),
         FreeResources (mkJob 1 1 10 32 5)]) = 16"
proof -
  have a: "node_inv (mkWorkerNode 0)"
    by (simp add: node_inv_def mkWorkerNode_def word_sle_eq)
  have b: "disciplined [] (mkWorkerNode 0)
        [AllocateJob (mkJob 1 1 10 32 5), AllocateJob (mkJob 4 4 8 20 6),
         FreeResources (mkJob 1 1 10 32 5)]"
    by (simp add: mkWorkerNode_def mkJob_def allocateJob_def Let_def job_nonneg_def word_sle_eq)
  have c: "availableCores (run_ops (mkWorkerNode 0)
        [AllocateJob (mkJob 1 1 10 32 5), AllocateJob (mkJob 4 4 8 20 6),
         FreeResources (mkJob 1 1 10 32 5)]) = 16"
    by (simp add: mkWorkerNode_def mkJob_def allocateJob_def freeResources_def Let_def)
  show ?thesis
    using a b c node_inv_disciplined [OF a b, of 3] by simp
qed

text \<open>
  The claim as written fails: one \<open>freeResources\<close> on a fresh node leaves more cores
  available than the node has.
\<close>

theorem node_inv_freeResources_counterexample:
  "node_inv (mkWorkerNode 0)
   \<and> \<not> node_inv (run_ops (mkWorkerNode 0) [FreeResources (mkJob 1 1 10 32 5)])"
  by (simp add: node_inv_def mkWorkerNode_def mkJob_def freeResources_def Let_def word_sle_eq)

section \<open>The drains\<close>

lemma offer_placed:
  assumes "nodes s = pre @ node # post" and "\<forall>m \<in> set pre. \<not> admits m job" and "admits node job"
  shows "offer job s =
           s\<lparr>nodes := pre @ snd (allocateJob node job) # post,
             console := console s @ [Allocated (id_job job) (id_node node)]\<rparr>"
  using assms loop_first_fit [of pre job node post]
  by (simp add: offer_def allocateJobToNode_def)

lemma offer_deferred:
  assumes "\<forall>m \<in> set (nodes s). \<not> admits m job"
  shows "offer job s =
           s\<lparr>pendingJobs := pendingJobs s @ [job],
             console := console s @ [NotAllocated (id_job job)]\<rparr>"
  using loop_no_fit [OF assms]
  by (simp add: offer_def allocateJobToNode_def)

lemma offer_all_spec: "drain_spec js s (offer_all js s)"
proof (induction js arbitrary: s)
  case Nil
  show ?case by (simp add: drain_spec.empty)
next
  case (Cons job rest)
  from nodes_split [of "nodes s" job] show ?case
  proof
    assume none: "\<forall>m \<in> set (nodes s). \<not> admits m job"
    show ?thesis
      using Cons [of "offer job s"] drain_spec.deferred [OF none]
      by (simp add: offer_deferred [OF none])
  next
    assume "\<exists>pre node post. nodes s = pre @ node # post \<and> (\<forall>m \<in> set pre. \<not> admits m job) \<and> admits node job"
    then obtain pre node post where
      sp: "nodes s = pre @ node # post" "\<forall>m \<in> set pre. \<not> admits m job" "admits node job"
      by blast
    show ?thesis
      using Cons [of "offer job s"] drain_spec.placed [OF sp]
      by (simp add: offer_placed [OF sp])
  qed
qed

lemma offer_queue_FCFS: "offer job (s\<lparr>jobQueueFCFS := q\<rparr>) = (offer job s)\<lparr>jobQueueFCFS := q\<rparr>"
  by (simp add: offer_def allocateJobToNode_def split: prod.splits option.splits)

lemma offer_queue_Smallest: "offer job (s\<lparr>jobQueueSmallest := q\<rparr>) = (offer job s)\<lparr>jobQueueSmallest := q\<rparr>"
  by (simp add: offer_def allocateJobToNode_def split: prod.splits option.splits)

lemma offer_queue_Shortest: "offer job (s\<lparr>jobQueueShortest := q\<rparr>) = (offer job s)\<lparr>jobQueueShortest := q\<rparr>"
  by (simp add: offer_def allocateJobToNode_def split: prod.splits option.splits)

lemma offer_queues:
  "jobQueueFCFS (offer job s) = jobQueueFCFS s"
  "jobQueueSmallest (offer job s) = jobQueueSmallest s"
  "jobQueueShortest (offer job s) = jobQueueShortest s"
  by (simp_all add: offer_def allocateJobToNode_def split: prod.splits option.splits)

lemma scheduleJobsFCFS_offer_all:
  "jobQueueFCFS s = q \<Longrightarrow> scheduleJobsFCFS s = offer_all q (s\<lparr>jobQueueFCFS := []\<rparr>)"
proof (induction q arbitrary: s)
  case Nil
  then show ?case by (simp add: scheduleJobsFCFS.simps [of s])
next
  case (Cons job rest)
  have step: "scheduleJobsFCFS s = scheduleJobsFCFS (offer job (s\<lparr>jobQueueFCFS := rest\<rparr>))"
    using Cons.prems
    by (simp add: scheduleJobsFCFS.simps [of s] offer_def split: prod.splits)
  have "jobQueueFCFS (offer job (s\<lparr>jobQueueFCFS := rest\<rparr>)) = rest"
    by (simp add: offer_queues)
  from Cons.IH [OF this] show ?case
    by (simp add: step offer_queue_FCFS)
qed

lemma offer_pending:
  "\<exists>failed. set failed \<subseteq> {job} \<and>
     (\<forall>p. offer job (s\<lparr>pendingJobs := p\<rparr>) = (offer job s)\<lparr>pendingJobs := p @ failed\<rparr>)"
proof (cases "fst (allocateJobToNode job s)")
  case True
  then have "\<forall>p. offer job (s\<lparr>pendingJobs := p\<rparr>) = (offer job s)\<lparr>pendingJobs := p @ []\<rparr>"
    by (auto simp: offer_def allocateJobToNode_def split: prod.splits option.splits)
  then show ?thesis by (intro exI [of _ "[]"]) simp
next
  case False
  then have "\<forall>p. offer job (s\<lparr>pendingJobs := p\<rparr>) = (offer job s)\<lparr>pendingJobs := p @ [job]\<rparr>"
    by (auto simp: offer_def allocateJobToNode_def split: prod.splits option.splits)
  then show ?thesis by (intro exI [of _ "[job]"]) simp
qed

lemma offer_all_pending:
  "\<exists>failed. set failed \<subseteq> set js \<and>
     (\<forall>p. offer_all js (s\<lparr>pendingJobs := p\<rparr>) = (offer_all js s)\<lparr>pendingJobs := p @ failed\<rparr>)"
proof (induction js arbitrary: s)
  case Nil
  show ?case by (intro exI [of _ "[]"]) simp
next
  case (Cons job rest)
  obtain f1 where f1: "set f1 \<subseteq> {job}"
    "\<And>p. offer job (s\<lparr>pendingJobs := p\<rparr>) = (offer job s)\<lparr>pendingJobs := p @ f1\<rparr>"
    using offer_pending [of job s] by blast
  obtain f2 where f2: "set f2 \<subseteq> set rest"
    "\<And>p. offer_all rest ((offer job s)\<lparr>pendingJobs := p\<rparr>)
            = (offer_all rest (offer job s))\<lparr>pendingJobs := p @ f2\<rparr>"
    using Cons [of "offer job s"] by blast
  have "\<forall>p. offer_all (job # rest) (s\<lparr>pendingJobs := p\<rparr>)
          = (offer_all (job # rest) s)\<lparr>pendingJobs := p @ (f1 @ f2)\<rparr>"
    by (simp add: f1(2) f2(2))
  moreover have "set (f1 @ f2) \<subseteq> set (job # rest)" using f1(1) f2(1) by auto
  ultimately show ?case by blast
qed

lemma offer_all_queues:
  "jobQueueFCFS (offer_all js s) = jobQueueFCFS s \<and>
   jobQueueSmallest (offer_all js s) = jobQueueSmallest s \<and>
   jobQueueShortest (offer_all js s) = jobQueueShortest s"
  by (induction js arbitrary: s) (simp_all add: offer_queues)

lemma offer_all_queue_FCFS:
  "offer_all js (s\<lparr>jobQueueFCFS := q\<rparr>) = (offer_all js s)\<lparr>jobQueueFCFS := q\<rparr>"
  by (induction js arbitrary: s) (simp_all add: offer_queue_FCFS)

lemma scheduleJobsSmallest_offer_all:
  "jobQueueSmallest s = q \<Longrightarrow> scheduleJobsSmallest s = offer_all q (s\<lparr>jobQueueSmallest := []\<rparr>)"
proof (induction q arbitrary: s)
  case Nil
  then show ?case by (simp add: scheduleJobsSmallest.simps [of s])
next
  case (Cons job rest)
  have step: "scheduleJobsSmallest s = scheduleJobsSmallest (offer job (s\<lparr>jobQueueSmallest := rest\<rparr>))"
    using Cons.prems
    by (simp add: scheduleJobsSmallest.simps [of s] offer_def split: prod.splits)
  have "jobQueueSmallest (offer job (s\<lparr>jobQueueSmallest := rest\<rparr>)) = rest"
    by (simp add: offer_queues)
  from Cons.IH [OF this] show ?case
    by (simp add: step offer_queue_Smallest)
qed

lemma scheduleJobsShortest_offer_all:
  "jobQueueShortest s = q \<Longrightarrow> scheduleJobsShortest s = offer_all q (s\<lparr>jobQueueShortest := []\<rparr>)"
proof (induction q arbitrary: s)
  case Nil
  then show ?case by (simp add: scheduleJobsShortest.simps [of s])
next
  case (Cons job rest)
  have step: "scheduleJobsShortest s = scheduleJobsShortest (offer job (s\<lparr>jobQueueShortest := rest\<rparr>))"
    using Cons.prems
    by (simp add: scheduleJobsShortest.simps [of s] offer_def split: prod.splits)
  have "jobQueueShortest (offer job (s\<lparr>jobQueueShortest := rest\<rparr>)) = rest"
    by (simp add: offer_queues)
  from Cons.IH [OF this] show ?case
    by (simp add: step offer_queue_Shortest)
qed

lemma pending_queue_commute:
  "s\<lparr>pendingJobs := p, jobQueueFCFS := q\<rparr> = s\<lparr>jobQueueFCFS := q, pendingJobs := p\<rparr>"
  "s\<lparr>pendingJobs := p, jobQueueSmallest := q\<rparr> = s\<lparr>jobQueueSmallest := q, pendingJobs := p\<rparr>"
  "s\<lparr>pendingJobs := p, jobQueueShortest := q\<rparr> = s\<lparr>jobQueueShortest := q, pendingJobs := p\<rparr>"
  by simp_all

lemma drain_FCFS:
  "drain_spec (jobQueueFCFS s) (s\<lparr>jobQueueFCFS := []\<rparr>) (scheduleJobsFCFS s)
   \<and> jobQueueFCFS (scheduleJobsFCFS s) = []
   \<and> (\<exists>failed. set failed \<subseteq> set (jobQueueFCFS s) \<and>
        (\<forall>p. scheduleJobsFCFS (s\<lparr>pendingJobs := p\<rparr>)
               = (scheduleJobsFCFS s)\<lparr>pendingJobs := p @ failed\<rparr>))"
proof -
  let ?q = "jobQueueFCFS s" and ?s0 = "s\<lparr>jobQueueFCFS := []\<rparr>"
  have run: "scheduleJobsFCFS s = offer_all ?q ?s0"
    by (rule scheduleJobsFCFS_offer_all) simp
  obtain failed where f: "set failed \<subseteq> set ?q"
    "\<And>p. offer_all ?q (?s0\<lparr>pendingJobs := p\<rparr>) = (offer_all ?q ?s0)\<lparr>pendingJobs := p @ failed\<rparr>"
    using offer_all_pending [of ?q ?s0] by blast
  have "scheduleJobsFCFS (s\<lparr>pendingJobs := p\<rparr>) = (scheduleJobsFCFS s)\<lparr>pendingJobs := p @ failed\<rparr>" for p
    using scheduleJobsFCFS_offer_all [of "s\<lparr>pendingJobs := p\<rparr>" ?q] f(2) [of p]
    by (simp add: run pending_queue_commute)
  then show ?thesis
    using f(1) offer_all_spec [of ?q ?s0] offer_all_queues [of ?q ?s0]
    by (auto simp: run)
qed

lemma drain_Smallest:
  "drain_spec (jobQueueSmallest s) (s\<lparr>jobQueueSmallest := []\<rparr>) (scheduleJobsSmallest s)
   \<and> jobQueueSmallest (scheduleJobsSmallest s) = []
   \<and> (\<exists>failed. set failed \<subseteq> set (jobQueueSmallest s) \<and>
        (\<forall>p. scheduleJobsSmallest (s\<lparr>pendingJobs := p\<rparr>)
               = (scheduleJobsSmallest s)\<lparr>pendingJobs := p @ failed\<rparr>))"
proof -
  let ?q = "jobQueueSmallest s" and ?s0 = "s\<lparr>jobQueueSmallest := []\<rparr>"
  have run: "scheduleJobsSmallest s = offer_all ?q ?s0"
    by (rule scheduleJobsSmallest_offer_all) simp
  obtain failed where f: "set failed \<subseteq> set ?q"
    "\<And>p. offer_all ?q (?s0\<lparr>pendingJobs := p\<rparr>) = (offer_all ?q ?s0)\<lparr>pendingJobs := p @ failed\<rparr>"
    using offer_all_pending [of ?q ?s0] by blast
  have "scheduleJobsSmallest (s\<lparr>pendingJobs := p\<rparr>) = (scheduleJobsSmallest s)\<lparr>pendingJobs := p @ failed\<rparr>" for p
    using scheduleJobsSmallest_offer_all [of "s\<lparr>pendingJobs := p\<rparr>" ?q] f(2) [of p]
    by (simp add: run pending_queue_commute)
  then show ?thesis
    using f(1) offer_all_spec [of ?q ?s0] offer_all_queues [of ?q ?s0]
    by (auto simp: run)
qed

lemma drain_Shortest:
  "drain_spec (jobQueueShortest s) (s\<lparr>jobQueueShortest := []\<rparr>) (scheduleJobsShortest s)
   \<and> jobQueueShortest (scheduleJobsShortest s) = []
   \<and> (\<exists>failed. set failed \<subseteq> set (jobQueueShortest s) \<and>
        (\<forall>p. scheduleJobsShortest (s\<lparr>pendingJobs := p\<rparr>)
               = (scheduleJobsShortest s)\<lparr>pendingJobs := p @ failed\<rparr>))"
proof -
  let ?q = "jobQueueShortest s" and ?s0 = "s\<lparr>jobQueueShortest := []\<rparr>"
  have run: "scheduleJobsShortest s = offer_all ?q ?s0"
    by (rule scheduleJobsShortest_offer_all) simp
  obtain failed where f: "set failed \<subseteq> set ?q"
    "\<And>p. offer_all ?q (?s0\<lparr>pendingJobs := p\<rparr>) = (offer_all ?q ?s0)\<lparr>pendingJobs := p @ failed\<rparr>"
    using offer_all_pending [of ?q ?s0] by blast
  have "scheduleJobsShortest (s\<lparr>pendingJobs := p\<rparr>) = (scheduleJobsShortest s)\<lparr>pendingJobs := p @ failed\<rparr>" for p
    using scheduleJobsShortest_offer_all [of "s\<lparr>pendingJobs := p\<rparr>" ?q] f(2) [of p]
    by (simp add: run pending_queue_commute)
  then show ?thesis
    using f(1) offer_all_spec [of ?q ?s0] offer_all_queues [of ?q ?s0]
    by (auto simp: run)
qed

lemmas run_defs = generateSampleJobs_def mkScheduler_def mkWorkerNode_def mkJob_def
  addJobToQueueFCFS_def addJobToQueueSmallest_def addJobToQueueShortest_def
  SmallestJobFirst_def ShortestDurationFirst_def Let_def
  offer_def allocateJobToNode_def allocateJob_def word_sle_eq word_sless_alt

lemmas drain_runs = scheduleJobsFCFS_offer_all [OF refl] scheduleJobsSmallest_offer_all [OF refl]
  scheduleJobsShortest_offer_all [OF refl]

lemma sample_one_node:
  "generateSampleJobs (mkScheduler 1) =
     \<lparr>nodes = [mkWorkerNode 0],
      jobQueueFCFS = [mkJob 1 1 10 32 5, mkJob 4 4 8 20 6],
      jobQueueSmallest = [mkJob 2 2 5 16 3, mkJob 5 5 12 40 1],
      jobQueueShortest = [mkJob 3 3 20 48 2], pendingJobs = [], console = []\<rparr>"
  by (simp add: run_defs)

text \<open>
  C5. Every drain is a total function (its termination is proved with its definition)
  and raises nothing. It ends with its queue empty and treats the popped jobs as
  \<open>drain_spec\<close> says: each is placed on exactly one node or appended, as it is, to
  \<open>pendingJobs\<close>. What was pending before the drain only gets jobs of the drained queue
  appended; the nodes, the lines written and the queues after the drain are the same
  whatever \<open>pendingJobs\<close> held before it, so that no pending job is offered again.
\<close>

theorem drains_complete:
  "(drain_spec (jobQueueFCFS s) (s\<lparr>jobQueueFCFS := []\<rparr>) (scheduleJobsFCFS s)
    \<and> jobQueueFCFS (scheduleJobsFCFS s) = []
    \<and> (\<exists>failed. set failed \<subseteq> set (jobQueueFCFS s) \<and>
         (\<forall>p. scheduleJobsFCFS (s\<lparr>pendingJobs := p\<rparr>)
                = (scheduleJobsFCFS s)\<lparr>pendingJobs := p @ failed\<rparr>)))
   \<and> (drain_spec (jobQueueSmallest s) (s\<lparr>jobQueueSmallest := []\<rparr>) (scheduleJobsSmallest s)
    \<and> jobQueueSmallest (scheduleJobsSmallest s) = []
    \<and> (\<exists>failed. set failed \<subseteq> set (jobQueueSmallest s) \<and>
         (\<forall>p. scheduleJobsSmallest (s\<lparr>pendingJobs := p\<rparr>)
                = (scheduleJobsSmallest s)\<lparr>pendingJobs := p @ failed\<rparr>)))
   \<and> (drain_spec (jobQueueShortest s) (s\<lparr>jobQueueShortest := []\<rparr>) (scheduleJobsShortest s)
    \<and> jobQueueShortest (scheduleJobsShortest s) = []
    \<and> (\<exists>failed. set failed \<subseteq> set (jobQueueShortest s) \<and>
         (\<forall>p. scheduleJobsShortest (s\<lparr>pendingJobs := p\<rparr>)
                = (scheduleJobsShortest s)\<lparr>pendingJobs := p @ failed\<rparr>)))"
  using drain_FCFS [of s] drain_Smallest [of s] drain_Shortest [of s] by blast

theorem drains_complete_witness:
  "drain_spec [mkJob 1 1 10 32 5, mkJob 4 4 8 20 6]
     ((generateSampleJobs (mkScheduler 1))\<lparr>jobQueueFCFS := []\<rparr>)
     (scheduleJobsFCFS (generateSampleJobs (mkScheduler 1)))
   \<and> jobQueueFCFS (scheduleJobsFCFS (generateSampleJobs (mkScheduler 1))) = []
   \<and> console (scheduleJobsFCFS (generateSampleJobs (mkScheduler 1)))
       = [Allocated 1 0, Allocated 4 0]
   \<and> pendingJobs (scheduleJobsShortest (scheduleJobsSmallest (scheduleJobsFCFS
        (generateSampleJobs (mkScheduler 1)))))
       = [mkJob 2 2 5 16 3, mkJob 5 5 12 40 1, mkJob 3 3 20 48 2]"
proof -
  have q: "jobQueueFCFS (generateSampleJobs (mkScheduler 1))
             = [mkJob 1 1 10 32 5, mkJob 4 4 8 20 6]"
    by (simp add: sample_one_node)
  have c: "console (scheduleJobsFCFS (generateSampleJobs (mkScheduler 1)))
             = [Allocated 1 0, Allocated 4 0]"
    by (simp add: sample_one_node drain_runs) (simp add: run_defs)
  have p: "pendingJobs (scheduleJobsShortest (scheduleJobsSmallest (scheduleJobsFCFS
        (generateSampleJobs (mkScheduler 1)))))
       = [mkJob 2 2 5 16 3, mkJob 5 5 12 40 1, mkJob 3 3 20 48 2]"
    by (simp add: sample_one_node drain_runs run_defs)
  show ?thesis
    using drains_complete [of "generateSampleJobs (mkScheduler 1)"] c p
    unfolding q by blast
qed

section \<open>Infeasible jobs\<close>

lemma capped_refuses:
  "capped node \<Longrightarrow> totalCores node <s coresRequired job \<or> totalMemory node <s memoryRequired job
   \<Longrightarrow> \<not> admits node job"
  by (auto simp: capped_def admits_def word_sle_eq word_sless_alt)

lemma infeasible_refused:
  "\<forall>node \<in> set ns. capped node \<Longrightarrow> infeasible job ns \<Longrightarrow> \<forall>node \<in> set ns. \<not> admits node job"
  using capped_refuses by (auto simp: infeasible_def)

lemma allocateJob_totals:
  "totalCores (snd (allocateJob node job)) = totalCores node"
  "totalMemory (snd (allocateJob node job)) = totalMemory node"
  by (simp_all add: allocateJob_def Let_def)

lemma allocateJob_capped:
  assumes "capped node" and "job_nonneg job"
  shows "capped (snd (allocateJob node job))"
proof (cases "admits node job")
  case False
  then show ?thesis using assms by (simp add: allocateJob_refused)
next
  case True
  then have c: "sint (availableCores node - coresRequired job)
                  = sint (availableCores node) - sint (coresRequired job)"
    and m: "sint (availableMemory node - memoryRequired job)
                  = sint (availableMemory node) - sint (memoryRequired job)"
    using assms(2) by (simp_all add: admits_def job_nonneg_def sint_sub_nonneg)
  show ?thesis
    using assms True c m
    by (simp add: allocateJob_def Let_def capped_def admits_def job_nonneg_def word_sle_eq)
qed

lemma offer_cases:
  obtains (placed) pre node post where "nodes s = pre @ node # post" "admits node job"
      "offer job s = s\<lparr>nodes := pre @ snd (allocateJob node job) # post,
                        console := console s @ [Allocated (id_job job) (id_node node)]\<rparr>"
  | (deferred) "\<forall>m \<in> set (nodes s). \<not> admits m job"
      "offer job s = s\<lparr>pendingJobs := pendingJobs s @ [job],
                        console := console s @ [NotAllocated (id_job job)]\<rparr>"
  using nodes_split [of "nodes s" job] offer_placed [of s _ _ _ job] offer_deferred [of s job]
  by blast

lemma offer_infeasible:
  "infeasible j (nodes (offer job s)) = infeasible j (nodes s)"
  by (rule offer_cases [where s = s and job = job]) (auto simp: infeasible_def allocateJob_totals)

lemma offer_capped:
  assumes "\<forall>node \<in> set (nodes s). capped node" and "job_nonneg job"
  shows "\<forall>node \<in> set (nodes (offer job s)). capped node"
  by (rule offer_cases [where s = s and job = job]) (use assms in \<open>auto simp: allocateJob_capped\<close>)

lemma offer_count:
  assumes "\<forall>node \<in> set (nodes s). capped node" and "infeasible j (nodes s)"
  shows "count_list (pendingJobs (offer job s)) j
           = count_list (pendingJobs s) j + count_list [job] j"
proof (rule offer_cases [where s = s and job = job])
  fix pre node post
  assume placed: "nodes s = pre @ node # post" "admits node job"
    "offer job s = s\<lparr>nodes := pre @ snd (allocateJob node job) # post,
                      console := console s @ [Allocated (id_job job) (id_node node)]\<rparr>"
  then have "job \<noteq> j"
    using infeasible_refused [OF assms] by auto
  then show ?thesis using placed by simp
next
  assume "offer job s = s\<lparr>pendingJobs := pendingJobs s @ [job],
                        console := console s @ [NotAllocated (id_job job)]\<rparr>"
  then show ?thesis by simp
qed

lemma offer_all_count:
  assumes "\<forall>node \<in> set (nodes s). capped node" and "\<forall>job \<in> set js. job_nonneg job"
    and "infeasible j (nodes s)"
  shows "(\<forall>node \<in> set (nodes (offer_all js s)). capped node)
         \<and> infeasible j (nodes (offer_all js s))
         \<and> count_list (pendingJobs (offer_all js s)) j
             = count_list (pendingJobs s) j + count_list js j"
  using assms
proof (induction js arbitrary: s)
  case Nil
  then show ?case by simp
next
  case (Cons job rest)
  have 1: "\<forall>node \<in> set (nodes (offer job s)). capped node"
    using Cons.prems offer_capped [of s job] by simp
  have 2: "infeasible j (nodes (offer job s))"
    using Cons.prems by (simp add: offer_infeasible)
  have 3: "\<forall>x \<in> set rest. job_nonneg x" using Cons.prems by simp
  show ?case
    using Cons.IH [OF 1 3 2] offer_count [of s j job] Cons.prems(1,3)
    by simp
qed

lemma offer_all_drained:
  assumes "\<forall>node \<in> set (nodes s). capped node" and "\<forall>job \<in> set js. job_nonneg job"
    and "infeasible j (nodes s)"
    and "\<forall>job \<in> set (jobQueueFCFS s @ jobQueueSmallest s @ jobQueueShortest s). job_nonneg job"
  shows "sched_ok (offer_all js s) \<and> infeasible j (nodes (offer_all js s))
         \<and> copies j (offer_all js s) = copies j s + count_list js j
         \<and> (\<forall>p. queue_of p (offer_all js s) = queue_of p s)"
proof -
  have "queue_of p (offer_all js s) = queue_of p s" for p
    using offer_all_queues [of js s] by (cases p) simp_all
  then show ?thesis
    using offer_all_count [OF assms(1,2,3)] offer_all_queues [of js s] assms(4)
    by (simp add: sched_ok_def copies_def)
qed

lemma drained_step:
  assumes "sched_ok s" and "infeasible j (nodes s)"
    and "nodes s0 = nodes s" and "pendingJobs s0 = pendingJobs s"
    and "\<And>p'. queue_of p' s0 = (if p' = p then [] else queue_of p' s)"
  shows "sched_ok (offer_all (queue_of p s) s0)
         \<and> infeasible j (nodes (offer_all (queue_of p s) s0))
         \<and> copies j (offer_all (queue_of p s) s0) = copies j s
         \<and> queue_of p (offer_all (queue_of p s) s0) = []
         \<and> (\<forall>p'. queue_of p' s = [] \<longrightarrow> queue_of p' (offer_all (queue_of p s) s0) = [])"
proof -
  have ok: "\<forall>job \<in> set (queue_of p' s). job_nonneg job" for p'
    using assms(1) by (cases p') (simp_all add: sched_ok_def)
  have ok0: "\<forall>job \<in> set (queue_of p' s0). job_nonneg job" for p'
    using ok [of p'] assms(5) [of p'] by simp
  have pre: "\<forall>node \<in> set (nodes s0). capped node" "\<forall>job \<in> set (queue_of p s). job_nonneg job"
    "infeasible j (nodes s0)"
    "\<forall>job \<in> set (jobQueueFCFS s0 @ jobQueueSmallest s0 @ jobQueueShortest s0). job_nonneg job"
    using assms(1,2,3) ok [of p] ok0 [of FCFS] ok0 [of Smallest] ok0 [of Shortest]
    by (auto simp: sched_ok_def)
  note d = offer_all_drained [OF pre]
  have c0: "copies j s0 + count_list (queue_of p s) j = copies j s"
    using assms(4) assms(5) [of FCFS] assms(5) [of Smallest] assms(5) [of Shortest]
    by (cases p) (simp_all add: copies_def)
  show ?thesis
    using d c0 assms(5) by simp
qed

lemma run_drain_step:
  assumes "sched_ok s" and "infeasible j (nodes s)"
  shows "sched_ok (run_drain p s) \<and> infeasible j (nodes (run_drain p s))
         \<and> copies j (run_drain p s) = copies j s
         \<and> queue_of p (run_drain p s) = []
         \<and> (\<forall>p'. queue_of p' s = [] \<longrightarrow> queue_of p' (run_drain p s) = [])"
proof (cases p)
  case FCFS
  have run: "run_drain p s = offer_all (queue_of p s) (s\<lparr>jobQueueFCFS := []\<rparr>)"
    using scheduleJobsFCFS_offer_all [of s, OF refl] by (simp add: FCFS)
  have q: "queue_of p' (s\<lparr>jobQueueFCFS := []\<rparr>) = (if p' = p then [] else queue_of p' s)" for p'
    by (cases p') (simp_all add: FCFS)
  show ?thesis
    unfolding run by (rule drained_step [OF assms _ _ q]) simp_all
next
  case Smallest
  have run: "run_drain p s = offer_all (queue_of p s) (s\<lparr>jobQueueSmallest := []\<rparr>)"
    using scheduleJobsSmallest_offer_all [of s, OF refl] by (simp add: Smallest)
  have q: "queue_of p' (s\<lparr>jobQueueSmallest := []\<rparr>) = (if p' = p then [] else queue_of p' s)" for p'
    by (cases p') (simp_all add: Smallest)
  show ?thesis
    unfolding run by (rule drained_step [OF assms _ _ q]) simp_all
next
  case Shortest
  have run: "run_drain p s = offer_all (queue_of p s) (s\<lparr>jobQueueShortest := []\<rparr>)"
    using scheduleJobsShortest_offer_all [of s, OF refl] by (simp add: Shortest)
  have q: "queue_of p' (s\<lparr>jobQueueShortest := []\<rparr>) = (if p' = p then [] else queue_of p' s)" for p'
    by (cases p') (simp_all add: Shortest)
  show ?thesis
    unfolding run by (rule drained_step [OF assms _ _ q]) simp_all
qed

lemma run_drains_steps:
  assumes "sched_ok s" and "infeasible j (nodes s)"
  shows "sched_ok (run_drains ds s) \<and> infeasible j (nodes (run_drains ds s))
         \<and> copies j (run_drains ds s) = copies j s
         \<and> (\<forall>p. p \<in> set ds \<or> queue_of p s = [] \<longrightarrow> queue_of p (run_drains ds s) = [])"
  using assms
proof (induction ds arbitrary: s)
  case Nil
  then show ?case by simp
next
  case (Cons d ds)
  note step = run_drain_step [OF Cons.prems, of d]
  have ih: "sched_ok (run_drains ds (run_drain d s)) \<and>
      infeasible j (nodes (run_drains ds (run_drain d s))) \<and>
      copies j (run_drains ds (run_drain d s)) = copies j (run_drain d s) \<and>
      (\<forall>p. p \<in> set ds \<or> queue_of p (run_drain d s) = []
           \<longrightarrow> queue_of p (run_drains ds (run_drain d s)) = [])"
    using Cons.IH [of "run_drain d s"] step by blast
  show ?case using step ih by auto
qed

lemma sched_ok_refuses:
  assumes "sched_ok s" and "infeasible j (nodes s)"
  shows "\<not> fst (allocateJobToNode j s)"
  using loop_no_fit [OF infeasible_refused, of "nodes s" j] assms
  by (simp add: allocateJobToNode_def sched_ok_def)

lemma offer_all_jobs:
  "set (pendingJobs (offer_all js s)) \<subseteq> set (pendingJobs s) \<union> set js"
proof -
  obtain failed where f: "set failed \<subseteq> set js"
    "\<And>p. offer_all js (s\<lparr>pendingJobs := p\<rparr>) = (offer_all js s)\<lparr>pendingJobs := p @ failed\<rparr>"
    using offer_all_pending [of js s] by blast
  have "s\<lparr>pendingJobs := pendingJobs s\<rparr> = s" by simp
  then have "offer_all js s = (offer_all js s)\<lparr>pendingJobs := pendingJobs s @ failed\<rparr>"
    using f(2) [of "pendingJobs s"] by simp
  then have "pendingJobs (offer_all js s) = pendingJobs s @ failed"
    by (cases "offer_all js s") simp
  then show ?thesis using f(1) by auto
qed

lemma run_drain_all_jobs: "set (all_jobs (run_drain p s)) \<subseteq> set (all_jobs s)"
proof (cases p)
  case FCFS
  show ?thesis
    using offer_all_jobs [of "jobQueueFCFS s" "s\<lparr>jobQueueFCFS := []\<rparr>"]
      offer_all_queues [of "jobQueueFCFS s" "s\<lparr>jobQueueFCFS := []\<rparr>"]
    by (auto simp: FCFS all_jobs_def scheduleJobsFCFS_offer_all [of s, OF refl])
next
  case Smallest
  show ?thesis
    using offer_all_jobs [of "jobQueueSmallest s" "s\<lparr>jobQueueSmallest := []\<rparr>"]
      offer_all_queues [of "jobQueueSmallest s" "s\<lparr>jobQueueSmallest := []\<rparr>"]
    by (auto simp: Smallest all_jobs_def scheduleJobsSmallest_offer_all [of s, OF refl])
next
  case Shortest
  show ?thesis
    using offer_all_jobs [of "jobQueueShortest s" "s\<lparr>jobQueueShortest := []\<rparr>"]
      offer_all_queues [of "jobQueueShortest s" "s\<lparr>jobQueueShortest := []\<rparr>"]
    by (auto simp: Shortest all_jobs_def scheduleJobsShortest_offer_all [of s, OF refl])
qed

text \<open>
  C6, as the code has it. \<open>allocateJob\<close> raises a counter when a job asks for a negative
  amount, so a job beyond every node's totals can be placed after such a job. When the
  nodes are capped and the queued jobs ask for no negative amount, a job that is
  infeasible for the nodes is refused after every sequence of drains, and once the three
  drains have been invoked, in any order, every copy of it that was queued or pending
  is in \<open>pendingJobs\<close>.
\<close>

theorem infeasible_job_pending:
  assumes "sched_ok s" and "infeasible j (nodes s)"
  shows "({FCFS, Smallest, Shortest} \<subseteq> set ds \<longrightarrow>
            count_list (pendingJobs (run_drains ds s)) j
              = count_list (jobQueueFCFS s) j + count_list (jobQueueSmallest s) j
                + count_list (jobQueueShortest s) j + count_list (pendingJobs s) j)
         \<and> \<not> fst (allocateJobToNode j (run_drains ds s))"
proof -
  note r = run_drains_steps [OF assms, of ds]
  have "\<not> fst (allocateJobToNode j (run_drains ds s))"
    using r sched_ok_refuses by blast
  moreover have "count_list (pendingJobs (run_drains ds s)) j = copies j s"
    if "{FCFS, Smallest, Shortest} \<subseteq> set ds"
  proof -
    have "queue_of FCFS (run_drains ds s) = []" "queue_of Smallest (run_drains ds s) = []"
      "queue_of Shortest (run_drains ds s) = []"
      using r that by auto
    then have "copies j (run_drains ds s) = count_list (pendingJobs (run_drains ds s)) j"
      by (simp add: copies_def)
    then show ?thesis using r by simp
  qed
  ultimately show ?thesis by (simp add: copies_def)
qed

theorem infeasible_job_pending_witness:
  "sched_ok (addJobToQueueShortest (mkJob 9 9 30 8 1) (generateSampleJobs (mkScheduler 1)))
   \<and> infeasible (mkJob 9 9 30 8 1)
        (nodes (addJobToQueueShortest (mkJob 9 9 30 8 1) (generateSampleJobs (mkScheduler 1))))
   \<and> {FCFS, Smallest, Shortest} \<subseteq> set [Shortest, FCFS, Smallest]
   \<and> count_list (pendingJobs (run_drains [Shortest, FCFS, Smallest]
        (addJobToQueueShortest (mkJob 9 9 30 8 1) (generateSampleJobs (mkScheduler 1)))))
        (mkJob 9 9 30 8 1) = 1
   \<and> \<not> fst (allocateJobToNode (mkJob 9 9 30 8 1) (run_drains [Shortest, FCFS, Smallest]
        (addJobToQueueShortest (mkJob 9 9 30 8 1) (generateSampleJobs (mkScheduler 1)))))"
proof -
  let ?s = "addJobToQueueShortest (mkJob 9 9 30 8 1) (generateSampleJobs (mkScheduler 1))"
  have s: "?s = \<lparr>nodes = [mkWorkerNode 0],
      jobQueueFCFS = [mkJob 1 1 10 32 5, mkJob 4 4 8 20 6],
      jobQueueSmallest = [mkJob 2 2 5 16 3, mkJob 5 5 12 40 1],
      jobQueueShortest = [mkJob 9 9 30 8 1, mkJob 3 3 20 48 2],
      pendingJobs = [], console = []\<rparr>"
    by (simp add: sample_one_node) (simp add: run_defs)
  have ok: "sched_ok ?s"
    unfolding s by (simp add: sched_ok_def capped_def job_nonneg_def mkWorkerNode_def mkJob_def word_sle_eq)
  have inf: "infeasible (mkJob 9 9 30 8 1) (nodes ?s)"
    unfolding s by (simp add: infeasible_def mkWorkerNode_def mkJob_def word_sless_alt)
  have sub: "{FCFS, Smallest, Shortest} \<subseteq> set [Shortest, FCFS, Smallest]" by simp
  have cnt: "count_list (jobQueueFCFS ?s) (mkJob 9 9 30 8 1)
      + count_list (jobQueueSmallest ?s) (mkJob 9 9 30 8 1)
      + count_list (jobQueueShortest ?s) (mkJob 9 9 30 8 1)
      + count_list (pendingJobs ?s) (mkJob 9 9 30 8 1) = 1"
    unfolding s by (simp add: mkJob_def)
  show ?thesis
    using infeasible_job_pending [OF ok inf, of "[Shortest, FCFS, Smallest]"] ok inf sub cnt
    by simp
qed

text \<open>
  The claim as written fails: after a job that asks for \<open>-100\<close> cores, the one node has
  124 cores available, and the job that asks for 100 cores, more than the 24 of the
  node, is placed on it and never reaches \<open>pendingJobs\<close>.
\<close>

theorem infeasible_job_counterexample:
  "infeasible (mkJob 2 2 100 1 1)
     (nodes (addJobToQueueFCFS (mkJob 2 2 100 1 1)
        (addJobToQueueFCFS (mkJob 1 1 (- 100) 1 1) (mkScheduler 1))))
   \<and> pendingJobs (run_drains [FCFS, Smallest, Shortest]
        (addJobToQueueFCFS (mkJob 2 2 100 1 1)
          (addJobToQueueFCFS (mkJob 1 1 (- 100) 1 1) (mkScheduler 1)))) = []
   \<and> console (run_drains [FCFS, Smallest, Shortest]
        (addJobToQueueFCFS (mkJob 2 2 100 1 1)
          (addJobToQueueFCFS (mkJob 1 1 (- 100) 1 1) (mkScheduler 1))))
       = [Allocated 1 0, Allocated 2 0]"
  by (simp add: infeasible_def drain_runs run_defs)

section \<open>The completed flag\<close>

text \<open>
  C3, as the code has it. No statement of Project.cpp assigns \<open>completed\<close> after the
  constructor has set it to false. \<open>allocateJobToNode\<close> leaves the job behind its
  reference as it was, whether it places the job or not, and the jobs that a scheduler
  holds after a drain are jobs that it held before. So the flag is never reset, and it
  never becomes true either.
\<close>

theorem completed_unchanged:
  "fst (snd (allocateJobToNode job s)) = job
   \<and> set (all_jobs (scheduleJobsFCFS s)) \<subseteq> set (all_jobs s)
   \<and> set (all_jobs (scheduleJobsSmallest s)) \<subseteq> set (all_jobs s)
   \<and> set (all_jobs (scheduleJobsShortest s)) \<subseteq> set (all_jobs s)
   \<and> \<not> completed (mkJob i arrival cores memory exec)"
proof -
  have "fst (snd (allocateJobToNode job s)) = job"
    by (simp add: allocateJobToNode_def split: prod.splits option.splits)
  then show ?thesis
    using run_drain_all_jobs [of FCFS s] run_drain_all_jobs [of Smallest s]
      run_drain_all_jobs [of Shortest s]
    by (simp add: mkJob_def)
qed

theorem completed_unchanged_witness:
  "fst (snd (allocateJobToNode (mkJob 1 1 10 32 5) (mkScheduler 1))) = mkJob 1 1 10 32 5
   \<and> all_jobs (generateSampleJobs (mkScheduler 1))
       = [mkJob 1 1 10 32 5, mkJob 4 4 8 20 6, mkJob 2 2 5 16 3, mkJob 5 5 12 40 1,
          mkJob 3 3 20 48 2]
   \<and> all_jobs (scheduleJobsSmallest (generateSampleJobs (mkScheduler 1)))
       = [mkJob 1 1 10 32 5, mkJob 4 4 8 20 6, mkJob 3 3 20 48 2]
   \<and> completed (mkJob 2 2 5 16 3) = False"
proof -
  have a: "all_jobs (generateSampleJobs (mkScheduler 1))
       = [mkJob 1 1 10 32 5, mkJob 4 4 8 20 6, mkJob 2 2 5 16 3, mkJob 5 5 12 40 1,
          mkJob 3 3 20 48 2]"
    by (simp add: sample_one_node all_jobs_def)
  have b: "all_jobs (scheduleJobsSmallest (generateSampleJobs (mkScheduler 1)))
       = [mkJob 1 1 10 32 5, mkJob 4 4 8 20 6, mkJob 3 3 20 48 2]"
    by (simp add: sample_one_node drain_runs all_jobs_def) (simp add: run_defs)
  show ?thesis
    using a b completed_unchanged [of "mkJob 1 1 10 32 5" "mkScheduler 1" 2 2 5 16 3]
    by simp
qed

text \<open>
  The claim as written fails: the job is placed on node 0, and its flag is false after
  the call.
\<close>

theorem completed_counterexample:
  "fst (allocateJobToNode (mkJob 1 1 10 32 5) (mkScheduler 1))
   \<and> console (snd (snd (allocateJobToNode (mkJob 1 1 10 32 5) (mkScheduler 1))))
       = [Allocated 1 0]
   \<and> \<not> completed (fst (snd (allocateJobToNode (mkJob 1 1 10 32 5) (mkScheduler 1))))"
  by (simp add: run_defs)

section \<open>The order of the policy queues\<close>

lemma sint_key32: "sint (key32 job) = signed_take_bit 31 (exact_product job)"
proof -
  have s: "sint (w :: cint) = signed_take_bit 31 (sint w)" for w
    using sint_ge [of w] sint_lt [of w] by (simp add: signed_take_bit_int_eq_self)
  have "sint (key32 job)
      = signed_take_bit 31 (signed_take_bit 31 (sint (execTime job) * sint (coresRequired job))
          * sint (memoryRequired job))"
    by (simp add: key32_def sint_word_ariths)
  also have "\<dots> = signed_take_bit 31 (signed_take_bit 31 (sint (execTime job) * sint (coresRequired job))
          * signed_take_bit 31 (sint (memoryRequired job)))"
    using s [of "memoryRequired job"] by simp
  also have "\<dots> = signed_take_bit 31 (exact_product job)"
    by (simp only: signed_take_bit_mult exact_product_def)
  finally show ?thesis .
qed

lemma sint_key32_exact: "fits_int (exact_product job) \<Longrightarrow> sint (key32 job) = exact_product job"
  by (simp add: sint_key32 fits_int_def signed_take_bit_int_eq_self)

lemma SmallestJobFirst_key: "SmallestJobFirst j1 j2 \<longleftrightarrow> sint (key32 j2) < sint (key32 j1)"
  by (simp add: SmallestJobFirst_def key32_def word_sless_alt)

lemma ShortestDurationFirst_key:
  "ShortestDurationFirst j1 j2 \<longleftrightarrow> sint (execTime j2) < sint (execTime j1)"
  by (simp add: ShortestDurationFirst_def word_sless_alt)

lemma pq_push_mset: "mset (pq_push cmp x q) = add_mset x (mset q)"
  by (induction q) simp_all

lemma pq_push_set: "set (pq_push cmp x q) = insert x (set q)"
  by (induction q) auto

lemma pq_push_sorted:
  fixes key :: "'a \<Rightarrow> int"
  assumes "\<And>a b. cmp a b \<longleftrightarrow> key b < key a"
    and "sorted (map key q)"
  shows "sorted (map key (pq_push cmp x q))"
  using assms(2)
proof (induction q)
  case Nil
  show ?case by simp
next
  case (Cons y ys)
  then show ?case
    by (auto simp: assms(1) pq_push_set)
qed

lemma fold_push_sorted:
  fixes key :: "'a \<Rightarrow> int"
  assumes "\<And>a b. cmp a b \<longleftrightarrow> key b < key a"
  shows "sorted (map key q) \<Longrightarrow> sorted (map key (fold (pq_push cmp) js q))"
  by (induction js arbitrary: q) (simp_all add: pq_push_sorted [OF assms])

lemma fold_push_mset: "mset (fold (pq_push cmp) js q) = mset js + mset q"
  by (induction js arbitrary: q) (simp_all add: pq_push_mset)

lemma pq_pop_all_id: "pq_pop_all q = q"
  by (induction q) simp_all

lemma pushed_strictly_sorted:
  fixes key :: "'a \<Rightarrow> int"
  assumes "\<And>a b. cmp a b \<longleftrightarrow> key b < key a" and "distinct (map key js)"
  shows "sorted_wrt (\<lambda>a b. key a < key b) (pq_pop_all (fold (pq_push cmp) js []))
         \<and> mset (pq_pop_all (fold (pq_push cmp) js [])) = mset js"
proof -
  let ?out = "fold (pq_push cmp) js []"
  have m: "mset ?out = mset js" by (simp add: fold_push_mset)
  then have "mset (map key ?out) = mset (map key js)" by simp
  then have "distinct (map key ?out)"
    using assms(2) mset_eq_imp_distinct_iff by blast
  moreover have "sorted (map key ?out)"
    using fold_push_sorted [of cmp key "[]" js] assms(1) by simp
  ultimately have "sorted_wrt (<) (map key ?out)"
    by (simp add: strict_sorted_iff)
  then show ?thesis
    using m by (simp add: sorted_wrt_map pq_pop_all_id)
qed

lemma fold_addJobToQueueSmallest:
  "jobQueueSmallest (fold addJobToQueueSmallest js s)
     = fold (pq_push SmallestJobFirst) js (jobQueueSmallest s)"
  by (induction js arbitrary: s) (simp_all add: addJobToQueueSmallest_def)

lemma fold_addJobToQueueShortest:
  "jobQueueShortest (fold addJobToQueueShortest js s)
     = fold (pq_push ShortestDurationFirst) js (jobQueueShortest s)"
  by (induction js arbitrary: s) (simp_all add: addJobToQueueShortest_def)

lemma offer_console:
  "map event_job (console (offer job s)) = map event_job (console s) @ [id_job job]"
  by (rule offer_cases [where s = s and job = job]) (simp_all add: event_job_def)

lemma offer_all_console:
  "map event_job (console (offer_all js s)) = map event_job (console s) @ map id_job js"
  by (induction js arbitrary: s) (simp_all add: offer_console)

lemma distinct_sint:
  fixes ws :: "cint list"
  shows "distinct (map sint ws) = distinct ws"
  by (simp add: distinct_map inj_on_def word_eq_iff_signed [symmetric])

lemma scheduleJobsSmallest_console:
  "map event_job (console (scheduleJobsSmallest s))
     = map event_job (console s) @ map id_job (pq_pop_all (jobQueueSmallest s))"
  by (simp add: scheduleJobsSmallest_offer_all [OF refl] offer_all_console pq_pop_all_id)

lemma scheduleJobsShortest_console:
  "map event_job (console (scheduleJobsShortest s))
     = map event_job (console s) @ map id_job (pq_pop_all (jobQueueShortest s))"
  by (simp add: scheduleJobsShortest_offer_all [OF refl] offer_all_console pq_pop_all_id)

text \<open>
  C8. Jobs with pairwise distinct \<open>execTime\<close> that are pushed into an empty
  shortest-duration queue are popped in strictly ascending order of \<open>execTime\<close>: the
  popped sequence holds the pushed jobs, each once, and \<open>scheduleJobsShortest\<close> offers
  them in that order.
\<close>

theorem shortest_pops_ascending:
  assumes "distinct (map execTime js)" and "jobQueueShortest s = []"
  shows "sorted_wrt (\<lambda>a b. execTime a <s execTime b)
           (pq_pop_all (jobQueueShortest (fold addJobToQueueShortest js s)))
         \<and> mset (pq_pop_all (jobQueueShortest (fold addJobToQueueShortest js s))) = mset js
         \<and> map event_job (console (scheduleJobsShortest (fold addJobToQueueShortest js s)))
             = map event_job (console (fold addJobToQueueShortest js s))
               @ map id_job (pq_pop_all (jobQueueShortest (fold addJobToQueueShortest js s)))"
proof -
  have "distinct (map sint (map execTime js))"
    using assms(1) by (simp only: distinct_sint)
  then have d: "distinct (map (\<lambda>job. sint (execTime job)) js)"
    by (simp add: comp_def)
  show ?thesis
    using pushed_strictly_sorted [of ShortestDurationFirst "\<lambda>job. sint (execTime job)" js, OF _ d]
      assms(2)
    by (simp add: ShortestDurationFirst_key fold_addJobToQueueShortest word_sless_alt
        scheduleJobsShortest_console)
qed

theorem shortest_pops_ascending_witness:
  "distinct (map execTime [mkJob 1 0 1 1 5, mkJob 2 0 1 1 2, mkJob 3 0 1 1 8])
   \<and> jobQueueShortest (mkScheduler 1) = []
   \<and> pq_pop_all (jobQueueShortest (fold addJobToQueueShortest
        [mkJob 1 0 1 1 5, mkJob 2 0 1 1 2, mkJob 3 0 1 1 8] (mkScheduler 1)))
       = [mkJob 2 0 1 1 2, mkJob 1 0 1 1 5, mkJob 3 0 1 1 8]
   \<and> map event_job (console (scheduleJobsShortest (fold addJobToQueueShortest
        [mkJob 1 0 1 1 5, mkJob 2 0 1 1 2, mkJob 3 0 1 1 8] (mkScheduler 1))))
       = [2, 1, 3]"
proof -
  have d: "distinct (map execTime [mkJob 1 0 1 1 5, mkJob 2 0 1 1 2, mkJob 3 0 1 1 8])"
    by (simp add: mkJob_def)
  have e: "jobQueueShortest (mkScheduler 1) = []" by (simp add: mkScheduler_def)
  have q: "jobQueueShortest (fold addJobToQueueShortest
        [mkJob 1 0 1 1 5, mkJob 2 0 1 1 2, mkJob 3 0 1 1 8] (mkScheduler 1))
       = [mkJob 2 0 1 1 2, mkJob 1 0 1 1 5, mkJob 3 0 1 1 8]"
    by (simp add: run_defs)
  have c: "console (fold addJobToQueueShortest
        [mkJob 1 0 1 1 5, mkJob 2 0 1 1 2, mkJob 3 0 1 1 8] (mkScheduler 1)) = []"
    by (simp add: run_defs)
  show ?thesis
    using shortest_pops_ascending [OF d e] d e
    unfolding q c by (simp add: mkJob_def)
qed

text \<open>
  C7, as the code has it. The comparator orders by the product computed in \<open>int\<close>.
  Jobs with pairwise distinct computed products that are pushed into an empty
  weighted-smallest queue are popped in strictly ascending order of the computed
  product; when the products of the signed values are pairwise distinct and each fits
  an \<open>int\<close>, that is the strictly ascending order of those products.
  \<open>scheduleJobsSmallest\<close> offers the jobs in the order of popping.
\<close>

theorem smallest_pops_ascending:
  assumes "jobQueueSmallest s = []"
  shows "(distinct (map key32 js) \<longrightarrow>
            sorted_wrt (\<lambda>a b. key32 a <s key32 b)
              (pq_pop_all (jobQueueSmallest (fold addJobToQueueSmallest js s)))
          \<and> mset (pq_pop_all (jobQueueSmallest (fold addJobToQueueSmallest js s))) = mset js)
         \<and> (distinct (map exact_product js) \<and> (\<forall>job \<in> set js. fits_int (exact_product job)) \<longrightarrow>
            sorted_wrt (\<lambda>a b. exact_product a < exact_product b)
              (pq_pop_all (jobQueueSmallest (fold addJobToQueueSmallest js s)))
          \<and> mset (pq_pop_all (jobQueueSmallest (fold addJobToQueueSmallest js s))) = mset js)
         \<and> map event_job (console (scheduleJobsSmallest (fold addJobToQueueSmallest js s)))
             = map event_job (console (fold addJobToQueueSmallest js s))
               @ map id_job (pq_pop_all (jobQueueSmallest (fold addJobToQueueSmallest js s)))"
proof -
  let ?out = "pq_pop_all (jobQueueSmallest (fold addJobToQueueSmallest js s))"
  have out: "?out = pq_pop_all (fold (pq_push SmallestJobFirst) js [])"
    using assms by (simp add: fold_addJobToQueueSmallest)
  have m: "mset ?out = mset js"
    unfolding out by (simp add: pq_pop_all_id fold_push_mset)
  have 1: "sorted_wrt (\<lambda>a b. key32 a <s key32 b) ?out" if "distinct (map key32 js)"
  proof -
    have "distinct (map sint (map key32 js))"
      using that by (simp only: distinct_sint)
    then have d: "distinct (map (\<lambda>job. sint (key32 job)) js)"
      by (simp add: comp_def)
    show ?thesis
      using pushed_strictly_sorted [of SmallestJobFirst "\<lambda>job. sint (key32 job)" js, OF _ d]
      unfolding out by (simp add: SmallestJobFirst_key word_sless_alt)
  qed
  have 2: "sorted_wrt (\<lambda>a b. exact_product a < exact_product b) ?out"
    if d: "distinct (map exact_product js)" and f: "\<forall>job \<in> set js. fits_int (exact_product job)"
  proof -
    have k: "sint (key32 job) = exact_product job" if "job \<in> set js" for job
      using f that by (simp add: sint_key32_exact)
    have "map (\<lambda>job. sint (key32 job)) js = map exact_product js"
      by (rule map_cong [OF refl]) (rule k)
    then have d': "distinct (map (\<lambda>job. sint (key32 job)) js)" using d by (simp only:)
    have s: "sorted_wrt (\<lambda>a b. sint (key32 a) < sint (key32 b)) ?out"
      using pushed_strictly_sorted [of SmallestJobFirst "\<lambda>job. sint (key32 job)" js, OF _ d']
      unfolding out by (simp add: SmallestJobFirst_key)
    have "set ?out = set js" using m by (metis set_mset_mset)
    then have "\<forall>job \<in> set ?out. sint (key32 job) = exact_product job" using k by simp
    then show ?thesis
      using s by (auto elim!: sorted_wrt_mono_rel [rotated])
  qed
  show ?thesis using 1 2 m by (simp add: scheduleJobsSmallest_console)
qed

theorem smallest_pops_ascending_witness:
  "jobQueueSmallest (mkScheduler 1) = []
   \<and> map exact_product [mkJob 1 0 10 10 1, mkJob 2 0 5 2 1, mkJob 3 0 10 10 10] = [100, 10, 1000]
   \<and> fits_int 100 \<and> fits_int 10 \<and> fits_int 1000
   \<and> map exact_product (pq_pop_all (jobQueueSmallest (fold addJobToQueueSmallest
        [mkJob 1 0 10 10 1, mkJob 2 0 5 2 1, mkJob 3 0 10 10 10] (mkScheduler 1))))
       = [10, 100, 1000]
   \<and> map event_job (console (scheduleJobsSmallest (fold addJobToQueueSmallest
        [mkJob 1 0 10 10 1, mkJob 2 0 5 2 1, mkJob 3 0 10 10 10] (mkScheduler 1))))
       = [2, 1, 3]"
proof -
  let ?js = "[mkJob 1 0 10 10 1, mkJob 2 0 5 2 1, mkJob 3 0 10 10 10]"
  have e: "jobQueueSmallest (mkScheduler 1) = []" by (simp add: mkScheduler_def)
  have p: "map exact_product ?js = [100, 10, 1000]"
    by (simp add: exact_product_def mkJob_def)
  have f: "fits_int 100 \<and> fits_int 10 \<and> fits_int 1000" by (simp add: fits_int_def)
  have q: "jobQueueSmallest (fold addJobToQueueSmallest ?js (mkScheduler 1))
       = [mkJob 2 0 5 2 1, mkJob 1 0 10 10 1, mkJob 3 0 10 10 10]"
    by (simp add: run_defs)
  have c: "console (fold addJobToQueueSmallest ?js (mkScheduler 1)) = []"
    by (simp add: run_defs)
  show ?thesis
    using smallest_pops_ascending [OF e, of ?js] e p f
    unfolding q c by (simp add: mkJob_def exact_product_def)
qed

text \<open>
  The claim as written fails: the product \<open>65536 * 65536 * 1\<close> is \<open>0\<close> in \<open>int\<close>, and
  the job with product 4294967296 is popped before the job with product 1.
\<close>

theorem smallest_pops_overflow_counterexample:
  "distinct (map exact_product [mkJob 1 0 65536 1 65536, mkJob 2 0 1 1 1])
   \<and> pq_pop_all (jobQueueSmallest (fold addJobToQueueSmallest
        [mkJob 1 0 65536 1 65536, mkJob 2 0 1 1 1] (mkScheduler 1)))
       = [mkJob 1 0 65536 1 65536, mkJob 2 0 1 1 1]
   \<and> map exact_product [mkJob 1 0 65536 1 65536, mkJob 2 0 1 1 1] = [4294967296, 1]
   \<and> key32 (mkJob 1 0 65536 1 65536) = 0"
  by (simp add: exact_product_def key32_def run_defs)

text \<open>
  C10. \<open>SmallestJobFirst\<close> compares the products computed in 32-bit signed
  arithmetic: the products of the signed values, wrapped. For two jobs whose products
  fit an \<open>int\<close> it is the comparison of the products themselves; for the two jobs
  named in the last line, one product does not fit and the two comparisons differ.
\<close>

theorem SmallestJobFirst_exact:
  "(fits_int (exact_product j1) \<and> fits_int (exact_product j2) \<longrightarrow>
      (SmallestJobFirst j1 j2 \<longleftrightarrow> exact_product j2 < exact_product j1))
   \<and> (SmallestJobFirst j1 j2 \<longleftrightarrow>
        signed_take_bit 31 (exact_product j2) < signed_take_bit 31 (exact_product j1))
   \<and> \<not> (SmallestJobFirst (mkJob 1 0 65536 1 65536) (mkJob 2 0 1 1 1) \<longleftrightarrow>
          exact_product (mkJob 2 0 1 1 1) < exact_product (mkJob 1 0 65536 1 65536))"
proof -
  have "SmallestJobFirst j1 j2 \<longleftrightarrow> exact_product j2 < exact_product j1"
    if "fits_int (exact_product j1)" and "fits_int (exact_product j2)"
    using that by (simp add: SmallestJobFirst_key sint_key32_exact)
  moreover have "SmallestJobFirst j1 j2 \<longleftrightarrow>
        signed_take_bit 31 (exact_product j2) < signed_take_bit 31 (exact_product j1)"
    by (simp add: SmallestJobFirst_key sint_key32)
  moreover have "\<not> (SmallestJobFirst (mkJob 1 0 65536 1 65536) (mkJob 2 0 1 1 1) \<longleftrightarrow>
          exact_product (mkJob 2 0 1 1 1) < exact_product (mkJob 1 0 65536 1 65536))"
    by (simp add: SmallestJobFirst_def exact_product_def mkJob_def word_sless_alt)
  ultimately show ?thesis by blast
qed

theorem SmallestJobFirst_exact_witness:
  "fits_int (exact_product (mkJob 1 0 10 10 1)) \<and> fits_int (exact_product (mkJob 2 0 5 2 1))
   \<and> exact_product (mkJob 1 0 10 10 1) = 100 \<and> exact_product (mkJob 2 0 5 2 1) = 10
   \<and> SmallestJobFirst (mkJob 1 0 10 10 1) (mkJob 2 0 5 2 1)
   \<and> \<not> SmallestJobFirst (mkJob 2 0 5 2 1) (mkJob 1 0 10 10 1)"
proof -
  have p: "exact_product (mkJob 1 0 10 10 1) = 100" "exact_product (mkJob 2 0 5 2 1) = 10"
    by (simp_all add: exact_product_def mkJob_def)
  have f: "fits_int (exact_product (mkJob 1 0 10 10 1))" "fits_int (exact_product (mkJob 2 0 5 2 1))"
    by (simp_all add: p fits_int_def)
  show ?thesis
    using SmallestJobFirst_exact [of "mkJob 1 0 10 10 1" "mkJob 2 0 5 2 1"]
      SmallestJobFirst_exact [of "mkJob 2 0 5 2 1" "mkJob 1 0 10 10 1"] f p
    by simp
qed

section \<open>Utilization in double arithmetic\<close>

lemma ilog2_le:
  assumes "0 < x"
  shows "2 powi (ilog2 x) \<le> x"
proof -
  obtain p q where pq: "quotient_of x = (p, q)" by (cases "quotient_of x")
  have q: "0 < q" using quotient_of_denom_pos [OF pq] .
  have x: "x = of_int p / of_int q" using quotient_of_div [OF pq] .
  have p: "0 < p" using assms q by (simp add: x zero_less_divide_iff)
  let ?d = "bitlen p - bitlen q"
  show ?thesis
  proof (cases "2 powi ?d \<le> x")
    case True
    then show ?thesis by (simp add: ilog2_def pq)
  next
    case False
    have bp: "1 \<le> bitlen p" using p bitlen_eq_zero_iff [of p] bitlen_nonneg [of p] by linarith
    have lo: "(2::rat) powi (bitlen p - 1) \<le> of_int p"
    proof -
      have "(2::int) ^ nat (bitlen p - 1) \<le> p" using bitlen_bounds [OF p] by simp
      then have "(of_int ((2::int) ^ nat (bitlen p - 1)) :: rat) \<le> of_int p"
        by (simp only: of_int_le_iff)
      then show ?thesis using bp by (simp add: power_int_def)
    qed
    have hi: "(of_int q :: rat) \<le> 2 powi (bitlen q)"
    proof -
      have "q < (2::int) ^ nat (bitlen q)" using bitlen_bounds [OF q] by simp
      then have "(of_int q :: rat) \<le> of_int ((2::int) ^ nat (bitlen q))"
        by (simp only: of_int_le_iff)
      then show ?thesis using bitlen_nonneg [of q] by (simp add: power_int_def)
    qed
    have "(2::rat) powi (?d - 1) = 2 powi (bitlen p - 1) / 2 powi (bitlen q)"
      by (simp add: power_int_diff)
    also have "\<dots> \<le> of_int p / 2 powi (bitlen q)"
      using lo by (simp add: divide_right_mono)
    also have "\<dots> \<le> of_int p / of_int q"
      using hi p q by (simp add: frac_le)
    finally have "(2::rat) powi (?d - 1) \<le> x" by (simp only: x)
    moreover have "ilog2 x = ?d - 1" using False by (simp add: ilog2_def pq)
    ultimately show ?thesis by simp
  qed
qed

lemma ilog2_less:
  assumes "0 < x"
  shows "x < 2 powi (ilog2 x + 1)"
proof -
  obtain p q where pq: "quotient_of x = (p, q)" by (cases "quotient_of x")
  have q: "0 < q" using quotient_of_denom_pos [OF pq] .
  have x: "x = of_int p / of_int q" using quotient_of_div [OF pq] .
  have p: "0 < p" using assms q by (simp add: x zero_less_divide_iff)
  let ?d = "bitlen p - bitlen q"
  show ?thesis
  proof (cases "2 powi ?d \<le> x")
    case False
    then show ?thesis by (simp add: ilog2_def pq)
  next
    case True
    have bq: "1 \<le> bitlen q" using q bitlen_eq_zero_iff [of q] bitlen_nonneg [of q] by linarith
    have lo: "(2::rat) powi (bitlen q - 1) \<le> of_int q"
    proof -
      have "(2::int) ^ nat (bitlen q - 1) \<le> q" using bitlen_bounds [OF q] by simp
      then have "(of_int ((2::int) ^ nat (bitlen q - 1)) :: rat) \<le> of_int q"
        by (simp only: of_int_le_iff)
      then show ?thesis using bq by (simp add: power_int_def)
    qed
    have hi: "(of_int p :: rat) < 2 powi (bitlen p)"
    proof -
      have "p < (2::int) ^ nat (bitlen p)" using bitlen_bounds [OF p] by simp
      then have "(of_int p :: rat) < of_int ((2::int) ^ nat (bitlen p))"
        by (simp only: of_int_less_iff)
      then show ?thesis using bitlen_nonneg [of p] by (simp add: power_int_def)
    qed
    have "x = of_int p / of_int q" by (rule x)
    also have "\<dots> < 2 powi (bitlen p) / of_int q"
      using hi q by (simp add: divide_strict_right_mono)
    also have "\<dots> \<le> 2 powi (bitlen p) / 2 powi (bitlen q - 1)"
      using lo by (intro frac_le) simp_all
    also have "\<dots> = 2 powi (?d + 1)"
      by (simp add: power_int_diff power_int_add)
    finally have "x < 2 powi (?d + 1)" .
    moreover have "ilog2 x = ?d" using True by (simp add: ilog2_def pq)
    ultimately show ?thesis by simp
  qed
qed

lemma round_half_even_near:
  "\<bar>of_int (round_half_even m) - m\<bar> \<le> 1 / 2"
proof -
  define f where "f = \<lfloor>m\<rfloor>"
  define r where "r = m - of_int f"
  have r: "0 \<le> r" "r < 1" unfolding r_def f_def by linarith+
  have m: "m = of_int f + r" by (simp add: r_def)
  have "round_half_even m =
      (if r < 1 / 2 then f else if 1 / 2 < r then f + 1 else if even f then f else f + 1)"
    by (simp add: round_half_even_def Let_def f_def r_def)
  then show ?thesis
    using r by (auto simp: m abs_if)
qed

lemma round_half_even_le:
  assumes "m \<le> of_int k"
  shows "round_half_even m \<le> k"
proof -
  have "of_int (round_half_even m) \<le> m + 1 / 2"
    using round_half_even_near [of m] by linarith
  then have "(of_int (round_half_even m) :: rat) < of_int k + 1" using assms by linarith
  then have "(of_int (round_half_even m) :: rat) < of_int (k + 1)" by simp
  then have "round_half_even m < k + 1" by (simp only: of_int_less_iff)
  then show ?thesis by simp
qed

lemma round_half_even_nonneg:
  assumes "0 \<le> m"
  shows "0 \<le> round_half_even m"
proof -
  have "0 \<le> \<lfloor>m\<rfloor>" using assms by simp
  then show ?thesis by (simp add: round_half_even_def Let_def)
qed

lemma round_double_bounded:
  assumes "0 < x" and "x \<le> of_int k" and "of_int k < (2::rat) powi (E + 1)"
    and "- 1022 \<le> E" and "E \<le> 52"
  shows "\<exists>y. round_double x = Finite y \<and> 0 \<le> y \<and> y \<le> of_int k \<and> \<bar>y - x\<bar> \<le> 2 powi (E - 53)"
proof -
  define e where "e = max (ilog2 x) (- 1022)"
  define quantum :: rat where "quantum = 2 powi (e - 52)"
  define n where "n = round_half_even (x / quantum)"
  define y :: rat where "y = of_int n * quantum"
  have "ilog2 x < E + 1"
  proof (rule ccontr)
    assume "\<not> ilog2 x < E + 1"
    then have "(2::rat) powi (E + 1) \<le> 2 powi (ilog2 x)"
      by (intro power_int_increasing) simp_all
    then show False using ilog2_le [OF assms(1)] assms(2,3) by linarith
  qed
  then have eE: "e \<le> E" using assms(4) by (simp add: e_def)
  have qpos: "0 < quantum" by (simp add: quantum_def)
  have inv: "1 / quantum = of_int (2 ^ nat (52 - e))"
  proof -
    have "1 / quantum = 2 powi (52 - e)"
      by (simp add: quantum_def power_int_diff)
    also have "\<dots> = 2 ^ nat (52 - e)"
      using eE assms(5) by (simp add: power_int_def)
    finally show ?thesis by simp
  qed
  have "x / quantum \<le> of_int k / quantum"
    using assms(2) qpos by (simp add: divide_right_mono)
  also have "\<dots> = of_int k * (1 / quantum)" by simp
  also have "\<dots> = of_int (k * 2 ^ nat (52 - e))" by (simp only: inv of_int_mult)
  finally have "n \<le> k * 2 ^ nat (52 - e)"
    unfolding n_def by (rule round_half_even_le)
  then have "(of_int n :: rat) \<le> of_int (k * 2 ^ nat (52 - e))" by (simp only: of_int_le_iff)
  then have "y \<le> of_int (k * 2 ^ nat (52 - e)) * quantum"
    unfolding y_def using qpos by (simp add: mult_right_mono)
  also have "\<dots> = of_int k * ((1 / quantum) * quantum)" by (simp only: inv of_int_mult mult.assoc)
  also have "\<dots> = of_int k" using qpos by simp
  finally have yk: "y \<le> of_int k" .
  have "0 \<le> x / quantum" using assms(1) qpos by simp
  then have "0 \<le> n" unfolding n_def by (rule round_half_even_nonneg)
  then have y0: "0 \<le> y" using qpos by (simp add: y_def)
  have "(2::rat) powi (E + 1) \<le> 2 powi 1024"
    using assms(5) by (intro power_int_increasing) simp_all
  then have fin: "\<not> 2 powi 1024 \<le> y" using yk assms(3) by linarith
  have "\<bar>y - x\<bar> = \<bar>of_int n - x / quantum\<bar> * quantum"
  proof -
    have "y - x = (of_int n - x / quantum) * quantum"
      using qpos by (simp add: y_def field_simps)
    then show ?thesis using qpos by (simp add: abs_mult)
  qed
  also have "\<dots> \<le> (1 / 2) * quantum"
    using round_half_even_near [of "x / quantum"] qpos
    unfolding n_def by (intro mult_right_mono) simp_all
  also have "\<dots> = 2 powi (e - 53)"
    by (simp add: quantum_def power_int_diff)
  also have "\<dots> \<le> 2 powi (E - 53)"
    using eE by (intro power_int_increasing) simp_all
  finally have err: "\<bar>y - x\<bar> \<le> 2 powi (E - 53)" .
  have "round_double x = Finite y"
    using assms(1) fin
    by (simp add: round_double_def Let_def e_def [symmetric] quantum_def [symmetric]
        n_def [symmetric] y_def [symmetric])
  then show ?thesis using y0 yk err by blast
qed

lemma round_unit:
  assumes "0 \<le> x" and "x \<le> 1"
  shows "\<exists>y. round_double x = Finite y \<and> 0 \<le> y \<and> y \<le> 1 \<and> \<bar>y - x\<bar> \<le> 2 powi (- 53)"
proof (cases "x = 0")
  case True
  then show ?thesis by (simp add: round_double_def)
next
  case False
  then show ?thesis
    using assms round_double_bounded [of x 1 0] by simp
qed

lemma round_hundred:
  assumes "0 \<le> x" and "x \<le> 100"
  shows "\<exists>y. round_double x = Finite y \<and> 0 \<le> y \<and> y \<le> 100 \<and> \<bar>y - x\<bar> \<le> 2 powi (- 47)"
proof (cases "x = 0")
  case True
  then show ?thesis by (simp add: round_double_def)
next
  case False
  then show ?thesis
    using assms round_double_bounded [of x 100 6] by simp
qed

lemma error_chain:
  fixes u r q x e1 e2 :: rat
  assumes "\<bar>q - x\<bar> \<le> e1" and "\<bar>r - (1 - q)\<bar> \<le> e1" and "\<bar>u - 100 * r\<bar> \<le> e2"
  shows "\<bar>u - 100 * (1 - x)\<bar> \<le> e2 + 100 * (e1 + e1)"
proof -
  have "q - x \<le> e1" "x - q \<le> e1" "r - (1 - q) \<le> e1" "(1 - q) - r \<le> e1"
    "u - 100 * r \<le> e2" "100 * r - u \<le> e2"
    using assms by (simp_all add: abs_le_iff)
  then have "u - 100 * (1 - x) \<le> e2 + 100 * (e1 + e1)"
    and "- (u - 100 * (1 - x)) \<le> e2 + 100 * (e1 + e1)"
    by (simp_all add: algebra_simps)
  then show ?thesis by (simp only: abs_le_iff)
qed

lemma percent_range:
  fixes a t :: int
  assumes "0 \<le> a" and "a \<le> t" and "0 < t"
  shows "\<exists>u. double_mul (Finite 100)
              (double_sub (Finite 1) (double_div (Finite (of_int a)) (Finite (of_int t))))
            = Finite u
          \<and> 0 \<le> u \<and> u \<le> 100
          \<and> \<bar>u - 100 * (1 - of_int a / of_int t)\<bar> \<le> 2 powi (- 44)"
proof -
  let ?x = "of_int a / of_int t :: rat"
  have x: "0 \<le> ?x" "?x \<le> 1" using assms by simp_all
  obtain q where q: "round_double ?x = Finite q" "0 \<le> q" "q \<le> 1" "\<bar>q - ?x\<bar> \<le> 2 powi (- 53)"
    using round_unit [OF x] by blast
  have "0 \<le> 1 - q" "1 - q \<le> 1" using q by simp_all
  then obtain r where r: "round_double (1 - q) = Finite r" "0 \<le> r" "r \<le> 1"
      "\<bar>r - (1 - q)\<bar> \<le> 2 powi (- 53)"
    using round_unit [of "1 - q"] by blast
  have "0 \<le> 100 * r" "100 * r \<le> 100" using r by simp_all
  then obtain u where u: "round_double (100 * r) = Finite u" "0 \<le> u" "u \<le> 100"
      "\<bar>u - 100 * r\<bar> \<le> 2 powi (- 47)"
    using round_hundred [of "100 * r"] by blast
  have run: "double_mul (Finite 100)
              (double_sub (Finite 1) (double_div (Finite (of_int a)) (Finite (of_int t))))
            = Finite u"
    using assms(3) by (simp add: q(1) r(1) u(1))
  have "\<bar>u - 100 * (1 - ?x)\<bar> \<le> 2 powi (- 47) + 100 * (2 powi (- 53) + 2 powi (- 53))"
    using q(4) r(4) u(4) by (rule error_chain)
  also have "\<dots> \<le> 2 powi (- 44)" by simp
  finally show ?thesis using run u(2,3) by blast
qed

lemma round_double_code [code]:
  "round_double x =
     (if x = 0 then Finite 0
      else
        let e = max (ilog2 \<bar>x\<bar>) (- 1022);
            quantum = 2 powi (e - 52);
            y = of_int (round_half_even (\<bar>x\<bar> / quantum)) * quantum
        in if (2 ^ 32) ^ 32 \<le> y then (if 0 < x then PlusInfinity else MinusInfinity)
           else Finite (sgn x * y))"
proof -
  have "((2::rat) ^ 32) ^ 32 = 2 powi 1024"
    by (simp only: power_mult [symmetric]) simp
  then show ?thesis by (simp only: round_double_def)
qed

lemma round_double_exact:
  "round_double 1 = Finite 1" "round_double (1 / 2) = Finite (1 / 2)"
  "round_double 50 = Finite 50"
  by code_simp+

lemma double_of_int_range:
  assumes "0 \<le>s a" and "a \<le>s t" and "0 <s t"
  shows "\<exists>u. double_mul (Finite 100)
              (double_sub (Finite 1) (double_div (double_of_int a) (double_of_int t)))
            = Finite u
          \<and> 0 \<le> u \<and> u \<le> 100
          \<and> \<bar>u - 100 * (1 - of_int (sint a) / of_int (sint t))\<bar> \<le> 2 powi (- 44)"
  using assms percent_range [of "sint a" "sint t"]
  by (simp add: double_of_int_def word_sle_eq word_sless_alt)

lemma full_node_zero:
  assumes "t \<noteq> 0"
  shows "double_mul (Finite 100)
              (double_sub (Finite 1) (double_div (double_of_int t) (double_of_int t))) = Finite 0"
  using assms
  by (simp add: double_of_int_def round_double_exact signed_eq_0_iff) (simp add: round_double_def)

text \<open>
  C9, as the code has it. The two functions depend on the node alone and compute
  \<open>100 * (1 - available / total)\<close> in \<open>double\<close>, each from the two counters of its own
  resource. When the cores of a node are within their bounds and the total is positive,
  whatever its memory counters are, the CPU utilization is a number from 0 to 100 that
  differs from the exact value of the formula by at most \<open>2 powi (- 44)\<close>; the same
  holds for the memory utilization under the bounds on the memory alone. On a node with
  all of a non-zero total available it is 0, and after a job of 12 cores and 32 GB is
  allocated to a fresh node of 24 cores and 64 GB both utilizations are exactly 50.
\<close>

theorem utilization_percentage:
  "(0 \<le>s availableCores node \<and> availableCores node \<le>s totalCores node
      \<and> 0 <s totalCores node \<longrightarrow>
      (\<exists>u. getCpuUtilization node = Finite u \<and> 0 \<le> u \<and> u \<le> 100
         \<and> \<bar>u - 100 * (1 - of_int (sint (availableCores node)) / of_int (sint (totalCores node)))\<bar>
             \<le> 2 powi (- 44)))
   \<and> (0 \<le>s availableMemory node \<and> availableMemory node \<le>s totalMemory node
      \<and> 0 <s totalMemory node \<longrightarrow>
      (\<exists>u. getMemoryUtilization node = Finite u \<and> 0 \<le> u \<and> u \<le> 100
         \<and> \<bar>u - 100 * (1 - of_int (sint (availableMemory node)) / of_int (sint (totalMemory node)))\<bar>
             \<le> 2 powi (- 44)))
   \<and> (availableCores node = totalCores node \<and> totalCores node \<noteq> 0 \<longrightarrow>
        getCpuUtilization node = Finite 0)
   \<and> (availableMemory node = totalMemory node \<and> totalMemory node \<noteq> 0 \<longrightarrow>
        getMemoryUtilization node = Finite 0)
   \<and> getCpuUtilization (snd (allocateJob (mkWorkerNode i) (mkJob j a 12 32 e))) = Finite 50
   \<and> getMemoryUtilization (snd (allocateJob (mkWorkerNode i) (mkJob j a 12 32 e))) = Finite 50"
proof -
  have 1: "\<exists>u. getCpuUtilization node = Finite u \<and> 0 \<le> u \<and> u \<le> 100
         \<and> \<bar>u - 100 * (1 - of_int (sint (availableCores node)) / of_int (sint (totalCores node)))\<bar>
             \<le> 2 powi (- 44)"
    if "0 \<le>s availableCores node" "availableCores node \<le>s totalCores node"
      "0 <s totalCores node"
    unfolding getCpuUtilization_def
    using that by (rule double_of_int_range)
  have 2: "\<exists>u. getMemoryUtilization node = Finite u \<and> 0 \<le> u \<and> u \<le> 100
         \<and> \<bar>u - 100 * (1 - of_int (sint (availableMemory node)) / of_int (sint (totalMemory node)))\<bar>
             \<le> 2 powi (- 44)"
    if "0 \<le>s availableMemory node" "availableMemory node \<le>s totalMemory node"
      "0 <s totalMemory node"
    unfolding getMemoryUtilization_def
    using that by (rule double_of_int_range)
  have 3: "getCpuUtilization node = Finite 0"
    if "availableCores node = totalCores node" "totalCores node \<noteq> 0"
    using that full_node_zero [of "totalCores node"] by (simp add: getCpuUtilization_def)
  have 4: "getMemoryUtilization node = Finite 0"
    if "availableMemory node = totalMemory node" "totalMemory node \<noteq> 0"
    using that full_node_zero [of "totalMemory node"] by (simp add: getMemoryUtilization_def)
  have 5: "getCpuUtilization (snd (allocateJob (mkWorkerNode i) (mkJob j a 12 32 e))) = Finite 50"
    by (simp add: getCpuUtilization_def allocateJob_def mkWorkerNode_def mkJob_def Let_def
        double_of_int_def round_double_exact)
  have 6: "getMemoryUtilization (snd (allocateJob (mkWorkerNode i) (mkJob j a 12 32 e))) = Finite 50"
    by (simp add: getMemoryUtilization_def allocateJob_def mkWorkerNode_def mkJob_def Let_def
        double_of_int_def round_double_exact)
  show ?thesis using 1 2 3 4 5 6 by blast
qed

text \<open>
  The first node of the witness has 12 of 24 cores and 96 of 64 GB available (a job of
  12 cores and \<open>-32\<close> GB was allocated to it): its cores are within their bounds, its
  memory is not. The second has 14 of 24 cores and 32 of 64 GB available.
\<close>

theorem utilization_percentage_witness:
  "availableCores (snd (allocateJob (mkWorkerNode 0) (mkJob 1 1 12 (- 32) 1))) = 12
   \<and> totalCores (snd (allocateJob (mkWorkerNode 0) (mkJob 1 1 12 (- 32) 1))) = 24
   \<and> availableMemory (snd (allocateJob (mkWorkerNode 0) (mkJob 1 1 12 (- 32) 1))) = 96
   \<and> totalMemory (snd (allocateJob (mkWorkerNode 0) (mkJob 1 1 12 (- 32) 1))) = 64
   \<and> getCpuUtilization (snd (allocateJob (mkWorkerNode 0) (mkJob 1 1 12 (- 32) 1))) = Finite 50
   \<and> availableMemory (snd (allocateJob (mkWorkerNode 0) (mkJob 1 1 10 32 5))) = 32
   \<and> totalMemory (snd (allocateJob (mkWorkerNode 0) (mkJob 1 1 10 32 5))) = 64
   \<and> getMemoryUtilization (snd (allocateJob (mkWorkerNode 0) (mkJob 1 1 10 32 5))) = Finite 50
   \<and> getCpuUtilization (snd (allocateJob (mkWorkerNode 0) (mkJob 1 1 10 32 5)))
       = Finite (5864062014805333 / 140737488355328)
   \<and> 0 \<le> (5864062014805333 / 140737488355328 :: rat)
   \<and> (5864062014805333 / 140737488355328 :: rat) \<le> 100"
proof -
  let ?skew = "snd (allocateJob (mkWorkerNode 0) (mkJob 1 1 12 (- 32) 1))"
  let ?node = "snd (allocateJob (mkWorkerNode 0) (mkJob 1 1 10 32 5))"
  have f: "availableCores ?skew = 12" "totalCores ?skew = 24"
    "availableMemory ?skew = 96" "totalMemory ?skew = 64"
    "availableCores ?node = 14" "totalCores ?node = 24"
    "availableMemory ?node = 32" "totalMemory ?node = 64"
    by (simp_all add: allocateJob_def mkWorkerNode_def mkJob_def Let_def
        word_sle_eq word_sless_alt)
  have hc: "0 \<le>s availableCores ?skew \<and> availableCores ?skew \<le>s totalCores ?skew
      \<and> 0 <s totalCores ?skew"
    unfolding f by (simp add: word_sle_eq word_sless_alt)
  have hn: "0 \<le>s availableCores ?node \<and> availableCores ?node \<le>s totalCores ?node
      \<and> 0 <s totalCores ?node"
    unfolding f by (simp add: word_sle_eq word_sless_alt)
  have hm: "0 \<le>s availableMemory ?node \<and> availableMemory ?node \<le>s totalMemory ?node
      \<and> 0 <s totalMemory ?node"
    unfolding f by (simp add: word_sle_eq word_sless_alt)
  have c: "getCpuUtilization ?skew = Finite 50"
    by code_simp
  have v: "getCpuUtilization ?node = Finite (5864062014805333 / 140737488355328)"
    by code_simp
  have m: "getMemoryUtilization ?node = Finite 50"
    by code_simp
  from utilization_percentage [of ?skew] hc
  have "\<exists>u. getCpuUtilization ?skew = Finite u \<and> 0 \<le> u \<and> u \<le> 100"
    by blast
  moreover from utilization_percentage [of ?node] hm
  have "\<exists>u. getMemoryUtilization ?node = Finite u \<and> 0 \<le> u \<and> u \<le> 100"
    by blast
  moreover from utilization_percentage [of ?node] hn
  have "\<exists>u. getCpuUtilization ?node = Finite u \<and> 0 \<le> u \<and> u \<le> 100"
    by blast
  then have "0 \<le> (5864062014805333 / 140737488355328 :: rat)
      \<and> (5864062014805333 / 140737488355328 :: rat) \<le> 100"
    unfolding v by simp
  ultimately show ?thesis using f c v m by blast
qed

text \<open>
  The claim as written fails: after one \<open>freeResources\<close> on a fresh node, 34 of 24
  cores are available and the utilization is negative.
\<close>

theorem utilization_counterexample:
  "getCpuUtilization (freeResources (mkWorkerNode 0) (mkJob 1 1 10 32 5))
     = Finite (- (2932031007402667 / 70368744177664))
   \<and> - (2932031007402667 / 70368744177664) < (0::rat)"
  by code_simp

end
